theory Spec2Isabelle
  imports Main "HOL-Library.Sublist"
begin

section \<open>Values, exceptions and the browser interface\<close>

text \<open>
  The program drives a browser through Playwright from a worker object
  (\<^verbatim>\<open>AutomationWorker\<close>) that reports on three Qt signals. The embedding makes the
  two things the Python leaves implicit explicit:
  \<^item> every Playwright call that reaches the browser is an \<open>action\<close>; whether it returns
    or raises is decided by the environment, which is a parameter of every function;
  \<^item> everything observable (progress lines, the error and completion signals, the
    Playwright calls, and the entries into the driver's methods) is appended to a
    \<open>trace\<close> carried in the state.
\<close>

text \<open>A Python exception, as the worker sees it: \<^verbatim>\<open>type(e).__name__\<close> and \<^verbatim>\<open>str(e)\<close>.\<close>

datatype exn = Exn (exn_type: string) (exn_msg: string)

text \<open>
  A spreadsheet cell as pandas hands it over: a missing value (\<^verbatim>\<open>NaN\<close>), a string, or
  another scalar (number, date, boolean), kept as the text \<^verbatim>\<open>str()\<close> gives for it.
\<close>

datatype cell = NaN | Text string | Scalar string

fun py_str :: "cell \<Rightarrow> string" where
  "py_str NaN = ''nan''"
| "py_str (Text t) = t"
| "py_str (Scalar r) = r"

text \<open>One entry of \<^verbatim>\<open>DataFrame.to_dict('records')\<close>, keyed by the three column names.\<close>

record user =
  Currency :: cell
  Username :: cell
  Postfix :: cell

text \<open>Playwright locators are built lazily; building one never raises.\<close>

datatype locator =
    Locator string
  | Locator_has_text string string
  | Get_by_text string

text \<open>The Playwright calls of the program; timeouts are in milliseconds.\<close>

datatype action =
    Playwright_start
  | Chromium_launch
  | New_page
  | Goto string nat
  | Expect_visible locator nat
  | Fill locator string
  | Click locator
  | Select_option locator string
  | Wait_for_url_without string nat
  | Wait_for_load_state string nat
  | Browser_close
  | Playwright_stop

text \<open>
  Entries into the methods of \<^verbatim>\<open>BrowserDriver\<close> and into \<^verbatim>\<open>AutomationWorker.stop\<close> are
  recorded as \<open>Called\<close> events, so that "how often was this method called, and with which
  record" can be read off the trace.
\<close>

datatype call = Launch | Login | Settle | Create user | Close | Stop

datatype event =
    Called call
  | Act action
  | Progress string
  | Automation_error string
  | Automation_finished

text \<open>
  The environment of one run: \<open>responds n a\<close> is what the browser does to the \<open>n\<close>-th
  Playwright call of the run when that call is \<open>a\<close> (\<open>None\<close>: it returns, \<open>Some e\<close>: it
  raises \<open>e\<close>); \<open>stop_before k\<close> says that the user-interface thread has called
  \<^verbatim>\<open>stop()\<close> since the worker's previous read of \<^verbatim>\<open>is_running\<close> and before its \<open>k\<close>-th
  one. The worker sees a \<^verbatim>\<open>stop()\<close> only at its next read of the flag, which is where the
  model places it.
\<close>

record env =
  responds :: "nat \<Rightarrow> action \<Rightarrow> exn option"
  stop_before :: "nat \<Rightarrow> bool"

record state =
  trace :: "event list"
  n_acts :: nat
  n_reads :: nat
  is_running :: bool
  driver :: bool
  playwright :: bool
  browser :: bool
  page :: bool

datatype outcome = Normal | Raised exn

type_synonym step = "state \<Rightarrow> outcome \<times> state"

definition log :: "event \<Rightarrow> state \<Rightarrow> state" where
  "log e s = s\<lparr>trace := trace s @ [e]\<rparr>"

definition enter :: "call \<Rightarrow> step" where
  "enter c s = (Normal, log (Called c) s)"

definition progress_callback :: "string \<Rightarrow> step" where
  "progress_callback msg s = (Normal, log (Progress msg) s)"

definition assign :: "(state \<Rightarrow> state) \<Rightarrow> step" where
  "assign f s = (Normal, f s)"

definition raise :: "exn \<Rightarrow> step" where
  "raise e s = (Raised e, s)"

definition act :: "env \<Rightarrow> action \<Rightarrow> step" where
  "act env a s =
     (let s' = (log (Act a) s)\<lparr>n_acts := n_acts s + 1\<rparr>
      in case responds env (n_acts s) a of
           None \<Rightarrow> (Normal, s')
         | Some e \<Rightarrow> (Raised e, s'))"

text \<open>Statements in sequence: the first one that raises ends the sequence.\<close>

fun seq :: "step list \<Rightarrow> step" where
  "seq [] s = (Normal, s)"
| "seq (m # ms) s =
     (case m s of
        (Raised e, s') \<Rightarrow> (Raised e, s')
      | (Normal, s') \<Rightarrow> seq ms s')"

text \<open>\<^verbatim>\<open>try: body / except Exception as e: handler(e)\<close>\<close>

definition try_except :: "step \<Rightarrow> (exn \<Rightarrow> step) \<Rightarrow> step" where
  "try_except body handler s =
     (case body s of
        (Raised e, s') \<Rightarrow> handler e s'
      | (Normal, s') \<Rightarrow> (Normal, s'))"

section \<open>BrowserDriver\<close>

definition launch :: "env \<Rightarrow> step" where
  "launch env = seq
     [enter Launch,
      progress_callback ''Launching browser...'',
      act env Playwright_start,
      assign (\<lambda>s. s\<lparr>playwright := True\<rparr>),
      act env Chromium_launch,
      assign (\<lambda>s. s\<lparr>browser := True\<rparr>),
      act env New_page,
      assign (\<lambda>s. s\<lparr>page := True\<rparr>),
      progress_callback ''Browser launched successfully.'']"

definition push_option_locator :: locator where
  \<open>push_option_locator =
     Locator ''[aria-label="Select to get a push notification to the Okta Verify app."]''\<close>

definition push_sent_locator :: locator where
  "push_sent_locator = Get_by_text ''We've sent a push notification''"

text \<open>Lines 43 to 66 of the source: the URL, the email and the password.\<close>

definition credential_steps :: "env \<Rightarrow> string \<Rightarrow> string \<Rightarrow> string \<Rightarrow> step list" where
  \<open>credential_steps env url em pw =
     [progress_callback (''Navigating to login page: '' @ url),
      act env (Goto url 60000),
      progress_callback ''Entering email...'',
      act env (Expect_visible (Locator ''#input28'') 30000),
      act env (Fill (Locator ''#input28'') em),
      progress_callback ''Clicking 'Next' button...'',
      act env (Expect_visible (Locator ''input[value="Next"]'') 30000),
      act env (Click (Locator ''input[value="Next"]'')),
      progress_callback ''Email submitted.'',
      progress_callback ''Entering password...'',
      act env (Expect_visible (Locator ''#input29'') 30000),
      act env (Fill (Locator ''#input29'') pw),
      progress_callback ''Clicking 'Verify' button...'',
      act env (Expect_visible (Locator ''input[value="Verify"]'') 30000),
      act env (Click (Locator ''input[value="Verify"]'')),
      progress_callback ''Password submitted.'',
      progress_callback ''Looking for MFA options...'']\<close>

text \<open>The body of the \<^verbatim>\<open>try\<close> of lines 69 to 78.\<close>

definition mfa_selection_steps :: "env \<Rightarrow> step list" where
  "mfa_selection_steps env =
     [act env (Expect_visible push_option_locator 30000),
      progress_callback ''Push notification option found. Clicking it.'',
      act env (Click push_option_locator),
      progress_callback ''Waiting for push sent confirmation...'',
      act env (Expect_visible push_sent_locator 15000),
      progress_callback ''Confirmation received: Push notification sent.'']"

definition mfa_info_message :: "exn \<Rightarrow> string" where
  "mfa_info_message e =
     ''[INFO] Did not find MFA selection screen, or an error occurred. Assuming push was sent by default. Details: ''
       @ exn_msg e"

definition mfa_selection :: "env \<Rightarrow> step" where
  "mfa_selection env =
     try_except (seq (mfa_selection_steps env)) (\<lambda>e. progress_callback (mfa_info_message e))"

text \<open>Lines 82 to 86: the wait for the operator's approval.\<close>

definition approval_steps :: "env \<Rightarrow> step list" where
  "approval_steps env =
     [progress_callback ''Waiting for Multi-Factor Authentication (MFA)...'',
      progress_callback ''>>> Please approve the notification on your phone. <<<'',
      act env (Wait_for_url_without ''okta.com'' 120000),
      progress_callback ''MFA approved. Login successful!'']"

definition login :: "env \<Rightarrow> string \<Rightarrow> string \<Rightarrow> string \<Rightarrow> step" where
  "login env url em pw = seq
     [enter Login,
      (\<lambda>s. if \<not> page s
            then raise (Exn ''Exception'' ''Browser is not launched. Call launch() first.'') s
            else seq (credential_steps env url em pw @ [mfa_selection env] @ approval_steps env) s)]"

definition wait_for_page_to_settle :: "env \<Rightarrow> step" where
  "wait_for_page_to_settle env = seq
     [enter Settle,
      progress_callback ''Waiting for page to fully load...'',
      act env (Wait_for_load_state ''networkidle'' 30000),
      progress_callback ''Page has settled.'']"

text \<open>
  \<^verbatim>\<open>s.split(sep)\<close> for a one-character separator: the pieces between the occurrences of
  the separator, empty pieces included; the result is never empty.
\<close>

fun py_split :: "char \<Rightarrow> string \<Rightarrow> string list" where
  "py_split sep [] = [[]]"
| "py_split sep (c # cs) =
     (if c = sep then [] # py_split sep cs
      else (c # hd (py_split sep cs)) # tl (py_split sep cs))"

definition currency_code :: "user \<Rightarrow> string" where
  "currency_code u = hd (py_split CHR '' '' (py_str (Currency u)))"

definition username :: "user \<Rightarrow> string" where
  "username u = py_str (Username u) @ py_str (Postfix u)"

definition create_steps :: "env \<Rightarrow> string \<Rightarrow> user \<Rightarrow> string \<Rightarrow> step list" where
  \<open>create_steps env base_url u pw =
     [progress_callback (''Navigating to Create User page: '' @ base_url @ ''/CreateUserAccount''),
      act env (Goto (base_url @ ''/CreateUserAccount'') 60000),
      wait_for_page_to_settle env,
      progress_callback (''Creating user: '' @ username u @ '' with currency '' @ currency_code u),
      progress_callback ''  - Player Type: Skipped.'',
      progress_callback ''  - Setting Market...'',
      act env (Expect_visible (Locator ''//*[@id="accountForm"]/div/div[2]/div/div/input'') 15000),
      act env (Click (Locator ''//*[@id="accountForm"]/div/div[2]/div/div/input'')),
      act env (Click (Locator_has_text ''span'' ''DEF (No Regulated Market)'')),
      progress_callback ''  - Setting Product...'',
      act env (Expect_visible (Locator ''//*[@id="accountForm"]/div/div[3]/div/div/input'') 15000),
      act env (Click (Locator ''//*[@id="accountForm"]/div/div[3]/div/div/input'')),
      act env (Click (Locator_has_text ''span'' ''Island Paradise Mobile (5007)'')),
      progress_callback ''  - Filling Username...'',
      act env (Expect_visible (Locator ''#username'') 15000),
      act env (Fill (Locator ''#username'') (username u)),
      progress_callback ''  - Filling Password...'',
      act env (Expect_visible (Locator ''#password'') 15000),
      act env (Fill (Locator ''#password'') pw),
      progress_callback ''  - Setting Currency...'',
      act env (Expect_visible (Locator ''#placeholder-currency'') 30000),
      act env (Select_option (Locator ''#placeholder-currency'') (currency_code u)),
      progress_callback ''  - Clicking 'Create Account'...'',
      act env (Expect_visible (Locator ''#placeholder-create-button'') 30000),
      act env (Click (Locator ''#placeholder-create-button'')),
      act env (Expect_visible (Locator ''text=User account created successfully'') 30000),
      progress_callback (''Successfully created user: '' @ username u)]\<close>

definition create_standard_user :: "env \<Rightarrow> string \<Rightarrow> user \<Rightarrow> string \<Rightarrow> step" where
  "create_standard_user env base_url u pw = seq
     [enter (Create u),
      (\<lambda>s. if \<not> page s
            then raise (Exn ''Exception'' ''Browser is not launched.'') s
            else seq (create_steps env base_url u pw) s)]"

definition close :: "env \<Rightarrow> step" where
  "close env = seq
     [enter Close,
      (\<lambda>s. if browser s
            then seq [act env Browser_close, progress_callback ''Browser closed.''] s
            else (Normal, s)),
      (\<lambda>s. if playwright s then act env Playwright_stop s else (Normal, s))]"

section \<open>AutomationWorker\<close>

record automation_worker =
  gtp_url :: string
  email :: string
  password :: string
  lvc_users :: "user list"
  standard_users :: "user list"
  user_password :: string
  debug_mode :: bool

text \<open>
  The state in which \<^verbatim>\<open>run\<close> starts: \<^verbatim>\<open>__init__\<close> has set \<^verbatim>\<open>is_running = True\<close> and
  \<^verbatim>\<open>driver = None\<close>, nothing has been emitted and no browser exists.
\<close>

definition initial_state :: state where
  "initial_state =
     \<lparr>trace = [], n_acts = 0, n_reads = 0, is_running = True,
      driver = False, playwright = False, browser = False, page = False\<rparr>"

definition stop :: "state \<Rightarrow> state" where
  "stop s = (log (Progress ''Stopping process...'') (log (Called Stop) s))\<lparr>is_running := False\<rparr>"

text \<open>
  One read of \<^verbatim>\<open>self.is_running\<close> by the worker, after whatever \<^verbatim>\<open>stop()\<close> the other
  thread has made since the previous read.
\<close>

definition read_is_running :: "env \<Rightarrow> state \<Rightarrow> bool \<times> state" where
  "read_is_running env s =
     (let s' = (if stop_before env (n_reads s) then stop s else s)
      in (is_running s', s'\<lparr>n_reads := n_reads s' + 1\<rparr>))"

text \<open>
  The body of the \<^verbatim>\<open>try\<close> in \<^verbatim>\<open>run\<close> returns in the middle in several places. Its parts
  say how they ended: \<open>Go_on\<close> (fall through to the next statement), \<open>Return\<close> (a
  \<^verbatim>\<open>return\<close> was executed) or \<open>Raise e\<close>.
\<close>

datatype flow = Go_on | Return | Raise exn

type_synonym part = "state \<Rightarrow> flow \<times> state"

definition do_step :: "step \<Rightarrow> part" where
  "do_step m s = (case m s of (Raised e, s') \<Rightarrow> (Raise e, s') | (Normal, s') \<Rightarrow> (Go_on, s'))"

text \<open>\<^verbatim>\<open>if not self.is_running: return\<close>\<close>

definition return_if_stopped :: "env \<Rightarrow> part" where
  "return_if_stopped env s =
     (case read_is_running env s of (r, s') \<Rightarrow> if \<not> r then (Return, s') else (Go_on, s'))"

fun parts :: "part list \<Rightarrow> part" where
  "parts [] s = (Go_on, s)"
| "parts (p # ps) s =
     (case p s of
        (Go_on, s') \<Rightarrow> parts ps s'
      | (Return, s') \<Rightarrow> (Return, s')
      | (Raise e, s') \<Rightarrow> (Raise e, s'))"

text \<open>
  The loop of lines 244 to 249. A \<^verbatim>\<open>break\<close> leaves the loop and falls through to the
  statement after it, so both breaks end the loop with \<open>Go_on\<close>.
\<close>

fun lvc_loop :: "env \<Rightarrow> automation_worker \<Rightarrow> user list \<Rightarrow> part" where
  "lvc_loop env w [] s = (Go_on, s)"
| "lvc_loop env w (u # us) s =
     (case read_is_running env s of (r, s1) \<Rightarrow>
        if \<not> r then (Go_on, s1)
        else (case create_standard_user env (gtp_url w) u (user_password w) s1 of
                (Raised e, s2) \<Rightarrow> (Raise e, s2)
              | (Normal, s2) \<Rightarrow>
                  if debug_mode w
                  then (Go_on, log (Progress ''--- DEBUG MODE: Halting after first LVC user. ---'') s2)
                  else lvc_loop env w us s2))"

text \<open>The loop of lines 254 to 256.\<close>

fun standard_loop :: "env \<Rightarrow> automation_worker \<Rightarrow> user list \<Rightarrow> part" where
  "standard_loop env w [] s = (Go_on, s)"
| "standard_loop env w (u # us) s =
     (case read_is_running env s of (r, s1) \<Rightarrow>
        if \<not> r then (Go_on, s1)
        else (case create_standard_user env (gtp_url w) u (user_password w) s1 of
                (Raised e, s2) \<Rightarrow> (Raise e, s2)
              | (Normal, s2) \<Rightarrow> standard_loop env w us s2))"

text \<open>Lines 251 to 256.\<close>

definition standard_phase :: "env \<Rightarrow> automation_worker \<Rightarrow> part" where
  "standard_phase env w s =
     (if \<not> debug_mode w
      then parts
             [return_if_stopped env,
              do_step (progress_callback (CHR 0x0A # ''Step 3: Processing Standard users...'')),
              standard_loop env w (standard_users w)] s
      else (Go_on, s))"

text \<open>Lines 258 and 259.\<close>

definition report_complete :: "env \<Rightarrow> part" where
  "report_complete env s =
     (case read_is_running env s of (r, s') \<Rightarrow>
        if r then do_step (progress_callback (CHR 0x0A # ''Automation complete!'')) s'
        else (Go_on, s'))"

text \<open>Lines 229 to 259, the body of the \<^verbatim>\<open>try\<close>.\<close>

definition run_body :: "env \<Rightarrow> automation_worker \<Rightarrow> part" where
  "run_body env w = parts
     [do_step (progress_callback ''Automation thread started.''),
      (\<lambda>s. if debug_mode w
            then do_step (progress_callback
                   ''--- DEBUG MODE ENABLED: Processing first LVC user only. ---'') s
            else (Go_on, s)),
      return_if_stopped env,
      do_step (launch env),
      return_if_stopped env,
      do_step (login env (gtp_url w) (email w) (password w)),
      return_if_stopped env,
      do_step (wait_for_page_to_settle env),
      return_if_stopped env,
      do_step (progress_callback (CHR 0x0A # ''Step 2: Processing LVC users...'')),
      lvc_loop env w (lvc_users w),
      standard_phase env w,
      report_complete env]"

definition full_error_message :: "exn \<Rightarrow> string" where
  "full_error_message e =
     ''A critical error stopped the automation.'' @ [CHR 0x0A, CHR 0x0A]
       @ ''Error Type: '' @ exn_type e @ [CHR 0x0A]
       @ ''Details: '' @ exn_msg e"

text \<open>
  Lines 261 to 274, the \<^verbatim>\<open>except Exception\<close> clause. What it prints on the standard
  output is not part of the trace.
\<close>

definition on_exception :: "exn \<Rightarrow> state \<Rightarrow> state" where
  "on_exception e s =
     log (Automation_error (full_error_message e))
       (log (Progress (''[ERROR] '' @ full_error_message e)) s)"

text \<open>
  Lines 275 to 278, the \<^verbatim>\<open>finally\<close> clause: \<^verbatim>\<open>close()\<close> and then the completion signal.
  An exception raised by \<^verbatim>\<open>close()\<close> leaves the clause, and \<^verbatim>\<open>run\<close>, at once.
\<close>

definition finally_clause :: "env \<Rightarrow> step" where
  "finally_clause env = seq
     [(\<lambda>s. if driver s then close env s else (Normal, s)),
      assign (log Automation_finished)]"

definition run :: "env \<Rightarrow> automation_worker \<Rightarrow> step" where
  "run env w s =
     (case run_body env w (s\<lparr>driver := True\<rparr>) of
        (Raise e, s') \<Rightarrow> finally_clause env (on_exception e s')
      | (_, s') \<Rightarrow> finally_clause env s')"

section \<open>Reading the input files\<close>

text \<open>
  The files the program reads are part of the environment. \<open>text_file p\<close> is what
  \<^verbatim>\<open>open(p, 'r')\<close> followed by \<^verbatim>\<open>readlines()\<close> meets: the text of the file as Python
  decodes it in text mode (every line ending already a newline character), or the
  exception raised on the way. \<open>excel_file p\<close> is what pandas meets at \<open>p\<close>: no file, a
  file it cannot open, or a workbook with its named sheets. A sheet is its rows, top
  down, each row its cells from column A on; a row shorter than the sheet is wide reads
  as \<^verbatim>\<open>NaN\<close> beyond its end.
\<close>

datatype excel = No_file | Unreadable exn | Workbook "(string \<times> cell list list) list"

record files =
  text_file :: "string \<Rightarrow> exn + string"
  excel_file :: "string \<Rightarrow> excel"

text \<open>\<^verbatim>\<open>f.readlines()\<close>: the lines of the text, each with its newline if it has one.\<close>

fun readlines :: "string \<Rightarrow> string list" where
  "readlines [] = []"
| "readlines (c # cs) =
     (if c = CHR 0x0A then [c] # readlines cs
      else (case readlines cs of [] \<Rightarrow> [[c]] | l # ls \<Rightarrow> (c # l) # ls))"

text \<open>The characters \<^verbatim>\<open>str.strip()\<close> removes, among the code points below 256.\<close>

definition is_space :: "char \<Rightarrow> bool" where
  "is_space c \<longleftrightarrow>
     of_char c \<in> {9, 10, 11, 12, 13, 28, 29, 30, 31, 32, 133, 160 :: nat}"

definition py_strip :: "string \<Rightarrow> string" where
  "py_strip t = rev (dropWhile is_space (rev (dropWhile is_space t)))"

definition parse_credentials_file :: "files \<Rightarrow> string \<Rightarrow> exn + string \<times> string" where
  "parse_credentials_file fs file_path =
     (case text_file fs file_path of
        Inl e \<Rightarrow> Inl e
      | Inr t \<Rightarrow>
          (let lines = readlines t
           in if length lines < 2
              then Inl (Exn ''ValueError''
                     ''Credentials file must have at least two lines (email and password).'')
              else Inr (py_strip (lines ! 0), py_strip (lines ! 1))))"

text \<open>A data frame whose columns have been given labels.\<close>

record frame =
  columns :: "cell list"
  rows :: "cell list list"

definition cell_at :: "cell list \<Rightarrow> nat \<Rightarrow> cell" where
  "cell_at r i = (if i < length r then r ! i else NaN)"

text \<open>
  \<^verbatim>\<open>d.columns = d.iloc[0]; d = d[1:].reset_index(drop=True)\<close>: the first row becomes the
  labels; \<^verbatim>\<open>iloc[0]\<close> raises on a frame without rows.
\<close>

definition first_row_as_header :: "cell list list \<Rightarrow> exn + frame" where
  "first_row_as_header d =
     (case d of
        [] \<Rightarrow> Inl (Exn ''IndexError'' ''single positional indexer is out-of-bounds'')
      | h # body \<Rightarrow> Inr \<lparr>columns = h, rows = body\<rparr>)"

text \<open>\<^verbatim>\<open>d.rename(columns={old: new}, inplace=True)\<close>\<close>

definition rename_column :: "string \<Rightarrow> string \<Rightarrow> frame \<Rightarrow> frame" where
  "rename_column old new d =
     d\<lparr>columns := map (\<lambda>c. if c = Text old then Text new else c) (columns d)\<rparr>"

text \<open>
  \<^verbatim>\<open>d.dropna(subset=[name], inplace=True)\<close>: a label that no column carries is a
  \<^verbatim>\<open>KeyError\<close>; otherwise the rows with a missing value in a column of that label go.
\<close>

definition positions :: "cell list \<Rightarrow> string \<Rightarrow> nat list" where
  "positions cols name = filter (\<lambda>i. cols ! i = Text name) [0 ..< length cols]"

definition dropna :: "string \<Rightarrow> frame \<Rightarrow> exn + frame" where
  "dropna name d =
     (let idx = positions (columns d) name
      in if idx = [] then Inl (Exn ''KeyError'' (''['' @ [CHR 0x27] @ name @ [CHR 0x27] @ '']''))
         else Inr (d\<lparr>rows := filter (\<lambda>r. list_all (\<lambda>i. cell_at r i \<noteq> NaN) idx) (rows d)\<rparr>))"

definition required_columns :: "string list" where
  "required_columns = [''Currency'', ''Username'', ''Postfix'']"

definition has_required_columns :: "frame \<Rightarrow> bool" where
  "has_required_columns d \<longleftrightarrow> list_all (\<lambda>col. Text col \<in> set (columns d)) required_columns"

text \<open>
  \<^verbatim>\<open>d.to_dict('records')\<close>, read through the three keys the worker uses: the value under
  a label is the cell of the row in the (last) column of that label.
\<close>

definition field :: "frame \<Rightarrow> cell list \<Rightarrow> string \<Rightarrow> cell" where
  "field d r name =
     (case rev (positions (columns d) name) of [] \<Rightarrow> NaN | i # _ \<Rightarrow> cell_at r i)"

definition to_records :: "frame \<Rightarrow> user list" where
  "to_records d =
     map (\<lambda>r. \<lparr>Currency = field d r ''Currency'',
               Username = field d r ''Username'',
               Postfix = field d r ''Postfix''\<rparr>) (rows d)"

text \<open>\<^verbatim>\<open>df.iloc[:, 0:3]\<close> and \<^verbatim>\<open>df.iloc[:, 4:7]\<close>\<close>

definition lvc_section :: "cell list list \<Rightarrow> cell list list" where
  "lvc_section df = map (take 3) df"

definition standard_section :: "cell list list \<Rightarrow> cell list list" where
  "standard_section df = map (\<lambda>r. take 3 (drop 4 r)) df"

definition parse_user_data :: "files \<Rightarrow> string \<Rightarrow> exn + user list \<times> user list" where
  "parse_user_data fs file_path =
     (case excel_file fs file_path of
        No_file \<Rightarrow>
          Inl (Exn ''FileNotFoundError''
                 (''The file could not be found at the path: '' @ file_path))
      | Unreadable e \<Rightarrow>
          Inl (Exn ''OSError''
                 (''The file at '' @ file_path
                    @ '' could not be opened or is corrupted. Details: '' @ exn_msg e))
      | Workbook sheets \<Rightarrow>
          (case map_of sheets ''Sheet1'' of
             None \<Rightarrow>
               Inl (Exn ''ValueError''
                      ''A required sheet named 'Sheet1' was not found in the Excel file.'')
           | Some df \<Rightarrow>
               (case first_row_as_header (lvc_section df) of
                  Inl e \<Rightarrow> Inl e
                | Inr lvc0 \<Rightarrow>
               (case dropna ''Currency'' (rename_column ''LVC Currency'' ''Currency'' lvc0) of
                  Inl e \<Rightarrow> Inl e
                | Inr lvc_df \<Rightarrow>
               (case first_row_as_header (standard_section df) of
                  Inl e \<Rightarrow> Inl e
                | Inr standard0 \<Rightarrow>
               (case dropna ''Currency'' standard0 of
                  Inl e \<Rightarrow> Inl e
                | Inr standard_df \<Rightarrow>
                    if \<not> has_required_columns lvc_df
                    then Inl (Exn ''ValueError''
                      ''The LVC section (Columns A-C) is missing required headers: 'LVC Currency', 'Username', 'Postfix'.'')
                    else if \<not> has_required_columns standard_df
                    then Inl (Exn ''ValueError''
                      ''The Standard section (Columns E-G) is missing required headers: 'Currency', 'Username', 'Postfix'.'')
                    else Inr (to_records lvc_df, to_records standard_df)))))))"

section \<open>MainWindow.start_automation\<close>

datatype gtp_version = GTP_640 | GTP_641 | GTP_642 | GTP_643 | GTP_644

fun GTP_VERSIONS :: "gtp_version \<Rightarrow> string" where
  "GTP_VERSIONS GTP_640 = ''https://admin-app1-gtp640.installprogram.eu''"
| "GTP_VERSIONS GTP_641 = ''https://admin-app1-gtp641.installprogram.eu''"
| "GTP_VERSIONS GTP_642 = ''https://admin-app1-gtp642.installprogram.eu''"
| "GTP_VERSIONS GTP_643 = ''https://admin-app1-gtp643.installprogram.eu''"
| "GTP_VERSIONS GTP_644 = ''https://admin-app1-gtp644.installprogram.eu''"

text \<open>What the operator has entered in the window when the start button is pressed.\<close>

record form =
  gtp_selection :: gtp_version
  cred_path :: string
  user_data_path :: string
  user_password_input :: string
  debug_mode_checked :: bool

text \<open>What the window itself shows: lines of the status log and message boxes.\<close>

datatype ui_event =
    Log_message string
  | Warning_box string string
  | Critical_box string string
  | Controls_enabled bool

text \<open>\<^verbatim>\<open>needle in haystack\<close> for two strings.\<close>

fun contains :: "string \<Rightarrow> string \<Rightarrow> bool" where
  "contains needle [] \<longleftrightarrow> needle = []"
| "contains needle (c # cs) \<longleftrightarrow>
     take (length needle) (c # cs) = needle \<or> contains needle cs"

text \<open>\<^verbatim>\<open>sep.join(xs)\<close>\<close>

fun join :: "string \<Rightarrow> string list \<Rightarrow> string" where
  "join sep [] = []"
| "join sep [x] = x"
| "join sep (x # y # ys) = x @ sep @ join sep (y # ys)"

text \<open>\<^verbatim>\<open>str(n)\<close> for a natural number.\<close>

fun digits :: "nat \<Rightarrow> nat \<Rightarrow> string" where
  "digits 0 n = []"
| "digits (Suc k) n =
     (if n < 10 then [char_of (48 + n)] else digits k (n div 10) @ [char_of (48 + n mod 10)])"

definition str_nat :: "nat \<Rightarrow> string" where
  "str_nat n = digits (Suc n) n"

definition input_errors :: "form \<Rightarrow> string list" where
  "input_errors f =
     (if contains ''No file selected'' (cred_path f)
      then [''You must select a credentials file.''] else [])
     @ (if contains ''No file selected'' (user_data_path f)
        then [''You must select a user data file.''] else [])
     @ (if user_password_input f = []
        then [''The password for new users cannot be empty.''] else [])"

text \<open>Lines 391 to 398: both files are parsed before anything else happens.\<close>

definition preflight ::
  "files \<Rightarrow> form \<Rightarrow> ui_event list \<times> (exn + (string \<times> string) \<times> user list \<times> user list)" where
  "preflight fs f =
     (let log1 = [Log_message (''Parsing credentials file: '' @ cred_path f)]
      in case parse_credentials_file fs (cred_path f) of
           Inl e \<Rightarrow> (log1, Inl e)
         | Inr cred \<Rightarrow>
             (let log2 = log1 @
                    [Log_message ''  - Credentials parsed successfully.'',
                     Log_message (''Parsing user data file: '' @ user_data_path f)]
              in case parse_user_data fs (user_data_path f) of
                   Inl e \<Rightarrow> (log2, Inl e)
                 | Inr (lvc, std) \<Rightarrow>
                     (log2 @
                        [Log_message (''  - Validation successful: Found '' @ str_nat (length lvc)
                           @ '' LVC and '' @ str_nat (length std) @ '' Standard users.'')],
                      Inr (cred, lvc, std))))"

text \<open>
  The result of \<^verbatim>\<open>start_automation\<close>: what the window showed, and the run of the worker
  if one was started (the worker runs in its own thread, from \<open>initial_state\<close>).
\<close>

definition start_automation ::
  "files \<Rightarrow> env \<Rightarrow> form \<Rightarrow> ui_event list \<times> (outcome \<times> state) option" where
  "start_automation fs env f =
     (let errors = input_errors f
      in if errors \<noteq> []
         then ([Warning_box ''Input Error'' (join [CHR 0x0A] errors)], None)
         else
           (let log0 = [Log_message (replicate 50 CHR ''=''),
                        Log_message ''Starting pre-flight checks...'']
            in case preflight fs f of
                 (log1, Inl e) \<Rightarrow>
                   (let error_message =
                          ''Failed to read or validate an input file.'' @ [CHR 0x0A, CHR 0x0A]
                            @ ''Error: '' @ exn_msg e
                    in (log0 @ log1 @
                          [Log_message (''[ERROR] '' @ error_message),
                           Critical_box ''File Error'' error_message],
                        None))
               | (log1, Inr ((em, pw), lvc, std)) \<Rightarrow>
                   (let w = \<lparr>gtp_url = GTP_VERSIONS (gtp_selection f), email = em,
                             password = pw, lvc_users = lvc, standard_users = std,
                             user_password = user_password_input f,
                             debug_mode = debug_mode_checked f\<rparr>
                    in (log0 @ log1 @
                          [Log_message ''Pre-flight checks passed. Starting automation process...'',
                           Controls_enabled False],
                        Some (run env w initial_state)))))"

text \<open>The parts of the body before the first loop.\<close>

definition setup_parts :: "env \<Rightarrow> automation_worker \<Rightarrow> part list" where
  "setup_parts env w =
     [do_step (progress_callback ''Automation thread started.''),
      (\<lambda>s. if debug_mode w
            then do_step (progress_callback
                   ''--- DEBUG MODE ENABLED: Processing first LVC user only. ---'') s
            else (Go_on, s)),
      return_if_stopped env,
      do_step (launch env),
      return_if_stopped env,
      do_step (login env (gtp_url w) (email w) (password w)),
      return_if_stopped env,
      do_step (wait_for_page_to_settle env),
      return_if_stopped env,
      do_step (progress_callback (CHR 0x0A # ''Step 2: Processing LVC users...''))]"

section \<open>What the specification says about the spreadsheet\<close>

text \<open>
  The header row of a section carries the expected names: \<^verbatim>\<open>Username\<close>, \<^verbatim>\<open>Postfix\<close> and
  the currency column, which is \<^verbatim>\<open>LVC Currency\<close> (or \<^verbatim>\<open>Currency\<close>) in columns A to C and
  \<^verbatim>\<open>Currency\<close> in columns E to G. A sheet without rows has no header row.
\<close>

definition lvc_headers_present :: "cell list list \<Rightarrow> bool" where
  "lvc_headers_present df \<longleftrightarrow>
     (case df of
        [] \<Rightarrow> False
      | h # body \<Rightarrow>
          (Text ''LVC Currency'' \<in> set (take 3 h) \<or> Text ''Currency'' \<in> set (take 3 h))
          \<and> Text ''Username'' \<in> set (take 3 h) \<and> Text ''Postfix'' \<in> set (take 3 h))"

definition standard_headers_present :: "cell list list \<Rightarrow> bool" where
  "standard_headers_present df \<longleftrightarrow>
     (case df of
        [] \<Rightarrow> False
      | h # body \<Rightarrow>
          Text ''Currency'' \<in> set (take 3 (drop 4 h))
          \<and> Text ''Username'' \<in> set (take 3 (drop 4 h))
          \<and> Text ''Postfix'' \<in> set (take 3 (drop 4 h)))"

text \<open>The two sections of a sheet as labelled frames, every data row kept.\<close>

definition lvc_frame :: "cell list list \<Rightarrow> frame" where
  "lvc_frame df =
     rename_column ''LVC Currency'' ''Currency''
       \<lparr>columns = take 3 (hd df), rows = map (take 3) (tl df)\<rparr>"

definition standard_frame :: "cell list list \<Rightarrow> frame" where
  "standard_frame df =
     \<lparr>columns = take 3 (drop 4 (hd df)), rows = map (\<lambda>r. take 3 (drop 4 r)) (tl df)\<rparr>"

definition with_currency :: "user list \<Rightarrow> user list" where
  "with_currency us = filter (\<lambda>u. Currency u \<noteq> NaN) us"

section \<open>Reading a trace\<close>

text \<open>The records with which \<^verbatim>\<open>create_standard_user\<close> was entered, in order.\<close>

fun created :: "event list \<Rightarrow> user list" where
  "created [] = []"
| "created (Called (Create u) # evs) = u # created evs"
| "created (ev # evs) = created evs"

text \<open>
  Three kinds of events: those of launching, logging in and settling (and of a
  \<^verbatim>\<open>stop()\<close> seen on the way); those the body of the \<^verbatim>\<open>try\<close> can produce at all; and those
  of \<^verbatim>\<open>close()\<close> after its entry.
\<close>

fun setup_event :: "event \<Rightarrow> bool" where
  "setup_event (Called c) = (c = Launch \<or> c = Login \<or> c = Settle \<or> c = Stop)"
| "setup_event (Act a) = (a \<noteq> Browser_close \<and> a \<noteq> Playwright_stop)"
| "setup_event (Progress m) = True"
| "setup_event (Automation_error m) = False"
| "setup_event Automation_finished = False"

fun body_event :: "event \<Rightarrow> bool" where
  "body_event (Called c) = (c \<noteq> Close)"
| "body_event (Act a) = (a \<noteq> Browser_close \<and> a \<noteq> Playwright_stop)"
| "body_event (Progress m) = True"
| "body_event (Automation_error m) = False"
| "body_event Automation_finished = False"

fun teardown_event :: "event \<Rightarrow> bool" where
  "teardown_event (Act a) = (a = Browser_close \<or> a = Playwright_stop)"
| "teardown_event (Progress m) = True"
| "teardown_event ev = False"

text \<open>
  What may still happen once a \<^verbatim>\<open>stop()\<close> has been seen: progress lines, further
  \<^verbatim>\<open>stop()\<close> calls, the teardown and the completion signal; no other method of the
  driver, no other Playwright call, and no error signal.
\<close>

fun halt_event :: "event \<Rightarrow> bool" where
  "halt_event (Called c) = (c = Stop \<or> c = Close)"
| "halt_event (Act a) = (a = Browser_close \<or> a = Playwright_stop)"
| "halt_event (Progress m) = True"
| "halt_event (Automation_error m) = False"
| "halt_event Automation_finished = True"

fun quiet_event :: "event \<Rightarrow> bool" where
  "quiet_event (Called c) = (c = Stop)"
| "quiet_event (Progress m) = True"
| "quiet_event ev = False"

text \<open>
  Frame conditions. A step "emits \<open>P\<close>" when it only appends events that satisfy \<open>P\<close>
  and leaves the worker's flag, its read counter and its driver alone (and does not lose
  the page); a part of the worker's body "yields \<open>P\<close>" when it only appends such events.
\<close>

definition emits :: "(event \<Rightarrow> bool) \<Rightarrow> step \<Rightarrow> bool" where
  "emits P m \<longleftrightarrow>
     (\<forall>s. \<exists>evs. trace (snd (m s)) = trace s @ evs \<and> list_all P evs
          \<and> is_running (snd (m s)) = is_running s
          \<and> n_reads (snd (m s)) = n_reads s
          \<and> driver (snd (m s)) = driver s
          \<and> (page s \<longrightarrow> page (snd (m s))))"

definition yields :: "(event \<Rightarrow> bool) \<Rightarrow> part \<Rightarrow> bool" where
  "yields P p \<longleftrightarrow>
     (\<forall>s. \<exists>evs. trace (snd (p s)) = trace s @ evs \<and> list_all P evs
          \<and> driver (snd (p s)) = driver s)"

text \<open>
  How a part of the body treats the cancellation flag. Started with the flag up, it
  "respects the stop": either the flag is still up at its end and no \<^verbatim>\<open>stop()\<close> has been
  seen, or the flag is down, the part did not raise, and from the first \<^verbatim>\<open>stop()\<close> on
  it emitted quiet events only. Started with the flag down, it is "quiet when halted": it
  emits quiet events only, does not raise and leaves the flag down. It is "alert" when it
  never goes on to the next part with the flag down.
\<close>

definition respects_stop :: "part \<Rightarrow> bool" where
  "respects_stop p \<longleftrightarrow>
     (\<forall>s fl s'. is_running s \<longrightarrow> p s = (fl, s') \<longrightarrow>
        (\<exists>evs. trace s' = trace s @ evs \<and>
           (if is_running s' then Called Stop \<notin> set evs
            else (\<forall>e. fl \<noteq> Raise e) \<and>
                 (\<exists>pre q. evs = pre @ q \<and> Called Stop \<notin> set pre \<and> list_all quiet_event q))))"

definition quiet_when_halted :: "part \<Rightarrow> bool" where
  "quiet_when_halted p \<longleftrightarrow>
     (\<forall>s fl s'. \<not> is_running s \<longrightarrow> p s = (fl, s') \<longrightarrow>
        \<not> is_running s' \<and> (\<forall>e. fl \<noteq> Raise e) \<and>
        (\<exists>evs. trace s' = trace s @ evs \<and> list_all quiet_event evs))"

definition alert :: "part \<Rightarrow> bool" where
  "alert p \<longleftrightarrow> (\<forall>s s'. is_running s \<longrightarrow> p s = (Go_on, s') \<longrightarrow> is_running s')"

text \<open>A step "completes" when it returns normally from every state that has a page.\<close>

definition completes :: "step \<Rightarrow> bool" where
  "completes m \<longleftrightarrow> (\<forall>s. page s \<longrightarrow> fst (m s) = Normal)"

text \<open>
  The Playwright calls of the run outside the \<^verbatim>\<open>try\<close> of the MFA selection and outside
  \<^verbatim>\<open>close()\<close>, phase by phase: those of \<^verbatim>\<open>launch\<close>, those of \<^verbatim>\<open>login\<close>, the one of
  \<^verbatim>\<open>wait_for_page_to_settle\<close>, and those of one provisioning sequence
  (\<^verbatim>\<open>create_standard_user\<close> for one record, its own wait for the page to settle included).
\<close>

definition launch_actions :: "action list" where
  "launch_actions = [Playwright_start, Chromium_launch, New_page]"

definition login_actions :: "string \<Rightarrow> string \<Rightarrow> string \<Rightarrow> action list" where
  \<open>login_actions url em pw =
     [Goto url 60000,
      Expect_visible (Locator ''#input28'') 30000,
      Fill (Locator ''#input28'') em,
      Expect_visible (Locator ''input[value="Next"]'') 30000,
      Click (Locator ''input[value="Next"]''),
      Expect_visible (Locator ''#input29'') 30000,
      Fill (Locator ''#input29'') pw,
      Expect_visible (Locator ''input[value="Verify"]'') 30000,
      Click (Locator ''input[value="Verify"]''),
      Wait_for_url_without ''okta.com'' 120000]\<close>

definition settle_actions :: "action list" where
  "settle_actions = [Wait_for_load_state ''networkidle'' 30000]"

definition provisioning_actions :: "string \<Rightarrow> user \<Rightarrow> string \<Rightarrow> action list" where
  \<open>provisioning_actions base_url u pw =
     [Goto (base_url @ ''/CreateUserAccount'') 60000,
      Wait_for_load_state ''networkidle'' 30000,
      Expect_visible (Locator ''//*[@id="accountForm"]/div/div[2]/div/div/input'') 15000,
      Click (Locator ''//*[@id="accountForm"]/div/div[2]/div/div/input''),
      Click (Locator_has_text ''span'' ''DEF (No Regulated Market)''),
      Expect_visible (Locator ''//*[@id="accountForm"]/div/div[3]/div/div/input'') 15000,
      Click (Locator ''//*[@id="accountForm"]/div/div[3]/div/div/input''),
      Click (Locator_has_text ''span'' ''Island Paradise Mobile (5007)''),
      Expect_visible (Locator ''#username'') 15000,
      Fill (Locator ''#username'') (username u),
      Expect_visible (Locator ''#password'') 15000,
      Fill (Locator ''#password'') pw,
      Expect_visible (Locator ''#placeholder-currency'') 30000,
      Select_option (Locator ''#placeholder-currency'') (currency_code u),
      Expect_visible (Locator ''#placeholder-create-button'') 30000,
      Click (Locator ''#placeholder-create-button''),
      Expect_visible (Locator ''text=User account created successfully'') 30000]\<close>

text \<open>
  "No provisioning step fails": whenever it is made, no call of the provisioning
  sequence of any record of the worker raises. "The setup succeeds": the same for the
  calls of launch, login and settling. Neither says anything about the calls inside the
  MFA-selection block or about the teardown. "Never stopped": nobody calls \<^verbatim>\<open>stop()\<close>.
\<close>

definition provisioning_succeeds :: "env \<Rightarrow> automation_worker \<Rightarrow> bool" where
  "provisioning_succeeds env w \<longleftrightarrow>
     (\<forall>n. list_all
            (\<lambda>u. list_all (\<lambda>a. responds env n a = None)
                   (provisioning_actions (gtp_url w) u (user_password w)))
            (lvc_users w @ standard_users w))"

definition setup_succeeds :: "env \<Rightarrow> automation_worker \<Rightarrow> bool" where
  "setup_succeeds env w \<longleftrightarrow>
     (\<forall>n. list_all (\<lambda>a. responds env n a = None)
            (launch_actions @ login_actions (gtp_url w) (email w) (password w) @ settle_actions))"

definition never_stopped :: "env \<Rightarrow> bool" where
  "never_stopped env \<longleftrightarrow> (\<forall>k. \<not> stop_before env k)"

fun is_error :: "event \<Rightarrow> bool" where
  "is_error (Automation_error m) = True"
| "is_error ev = False"

text \<open>The three Playwright calls inside the \<^verbatim>\<open>try\<close> of the MFA selection.\<close>

definition mfa_selection_actions :: "action list" where
  "mfa_selection_actions =
     [Expect_visible push_option_locator 30000, Click push_option_locator,
      Expect_visible push_sent_locator 15000]"

text \<open>What the \<^verbatim>\<open>except\<close> clause adds to the trace, by the way the body ended.\<close>

fun reported :: "flow \<Rightarrow> event list" where
  "reported (Raise e) =
     [Progress (''[ERROR] '' @ full_error_message e), Automation_error (full_error_message e)]"
| "reported fl = []"

section \<open>Concrete runs\<close>

definition calm_env :: env where
  "calm_env = \<lparr>responds = (\<lambda>n a. None), stop_before = (\<lambda>k. False)\<rparr>"

definition alice :: user where
  "alice = \<lparr>Currency = Text ''USD (US Dollar)'', Username = Text ''alice'', Postfix = Text ''_lvc''\<rparr>"

definition bob :: user where
  "bob = \<lparr>Currency = Text ''EUR'', Username = Text ''bob'', Postfix = Scalar ''7''\<rparr>"

definition demo_worker :: automation_worker where
  "demo_worker =
     \<lparr>gtp_url = GTP_VERSIONS GTP_640, email = ''operator@example.com'', password = ''secret'',
      lvc_users = [alice], standard_users = [bob], user_password = ''snow'',
      debug_mode = False\<rparr>"

definition idle_worker :: automation_worker where
  "idle_worker =
     \<lparr>gtp_url = GTP_VERSIONS GTP_640, email = ''operator@example.com'', password = ''secret'',
      lvc_users = [], standard_users = [], user_password = ''snow'', debug_mode = False\<rparr>"

text \<open>
  Two LVC records, and an operator who closes the window while the first is being
  created: the worker sees the \<^verbatim>\<open>stop()\<close> at its sixth read of the flag, the check before
  the second record.
\<close>

definition carol :: user where
  "carol = \<lparr>Currency = Text ''GBP (Pound)'', Username = Text ''carol'', Postfix = Text ''_lvc''\<rparr>"

definition two_lvc_worker :: automation_worker where
  "two_lvc_worker = demo_worker\<lparr>lvc_users := [alice, carol]\<rparr>"

definition cancelling_env :: env where
  "cancelling_env = \<lparr>responds = (\<lambda>n a. None), stop_before = (\<lambda>k. k = 5)\<rparr>"

text \<open>A state in which \<^verbatim>\<open>launch()\<close> has returned: three Playwright calls made, the page there.\<close>

definition launched_state :: state where
  "launched_state =
     initial_state\<lparr>n_acts := 3, driver := True, playwright := True, browser := True,
       page := True\<rparr>"

text \<open>
  The identity provider skips the selection screen: the push option never becomes visible
  and \<^verbatim>\<open>expect(...).to_be_visible\<close> raises; every other call succeeds.
\<close>

definition not_visible :: exn where
  "not_visible = Exn ''AssertionError'' ''Locator expected to be visible''"

definition no_push_option_env :: env where
  "no_push_option_env =
     \<lparr>responds = (\<lambda>n a. if a = Expect_visible push_option_locator 30000
                           then Some not_visible else None),
      stop_before = (\<lambda>k. False)\<rparr>"

text \<open>
  Playwright reports every expired wait of \<^verbatim>\<open>page.goto\<close>, \<^verbatim>\<open>page.wait_for_url\<close> and
  \<^verbatim>\<open>page.wait_for_load_state\<close> as a \<^verbatim>\<open>TimeoutError\<close>. In the first environment the operator
  never approves the push; in the second the login page never loads.
\<close>

definition timeout_error :: exn where
  "timeout_error = Exn ''TimeoutError'' ''Timeout exceeded.''"

definition approval_timeout_env :: env where
  "approval_timeout_env =
     \<lparr>responds = (\<lambda>n a. if a = Wait_for_url_without ''okta.com'' 120000
                           then Some timeout_error else None),
      stop_before = (\<lambda>k. False)\<rparr>"

definition goto_timeout_env :: env where
  "goto_timeout_env =
     \<lparr>responds = (\<lambda>n a. if a = Goto (GTP_VERSIONS GTP_640) 60000
                           then Some timeout_error else None),
      stop_before = (\<lambda>k. False)\<rparr>"

text \<open>
  The specification's wording for the currency option, "the first whitespace-delimited
  token" of the currency text: leading whitespace skipped, then everything up to the next
  whitespace character.
\<close>

definition spec_first_token :: "string \<Rightarrow> string" where
  "spec_first_token t = takeWhile (\<lambda>c. \<not> is_space c) (dropWhile is_space t)"

text \<open>A currency cell in which a tab, not a space, follows the code.\<close>

definition tab_user :: user where
  "tab_user =
     \<lparr>Currency = Text (''USD'' @ [CHR 0x09] @ ''(US Dollar)''), Username = Text ''dave'',
      Postfix = Text ''_std''\<rparr>"

text \<open>
  Input files: a credentials file of one line, one of two lines, a workbook whose first
  LVC data row has no currency, and a workbook whose standard section lacks the
  \<^verbatim>\<open>Postfix\<close> header.
\<close>

definition demo_sheet :: "cell list list" where
  "demo_sheet =
     [[Text ''LVC Currency'', Text ''Username'', Text ''Postfix'', NaN,
       Text ''Currency'', Text ''Username'', Text ''Postfix''],
      [NaN, Text ''ghost'', Text ''_lvc'', NaN, Text ''EUR'', Text ''bob'', Scalar ''7''],
      [Text ''USD (US Dollar)'', Text ''alice'', Text ''_lvc'']]"

definition headless_sheet :: "cell list list" where
  "headless_sheet =
     [[Text ''LVC Currency'', Text ''Username'', Text ''Postfix'', NaN,
       Text ''Currency'', Text ''Username'', Text ''Suffix''],
      [Text ''USD'', Text ''alice'', Text ''_lvc'', NaN, Text ''EUR'', Text ''bob'', Scalar ''7'']]"

definition demo_files :: files where
  "demo_files =
     \<lparr>text_file = (\<lambda>p. if p = ''one_line.txt'' then Inr ''operator@example.com''
                        else if p = ''two_lines.txt''
                        then Inr (''operator@example.com'' @ [CHR 0x0A] @ ''secret'' @ [CHR 0x0A])
                        else Inl (Exn ''FileNotFoundError'' p)),
      excel_file = (\<lambda>p. if p = ''users.xlsx'' then Workbook [(''Sheet1'', demo_sheet)]
                         else if p = ''headless.xlsx'' then Workbook [(''Sheet1'', headless_sheet)]
                         else No_file)\<rparr>"

definition demo_form :: form where
  "demo_form =
     \<lparr>gtp_selection = GTP_640, cred_path = ''two_lines.txt'', user_data_path = ''users.xlsx'',
      user_password_input = ''snow'', debug_mode_checked = False\<rparr>"

text \<open>The browser refuses to close: every other call succeeds, \<^verbatim>\<open>browser.close()\<close> raises.\<close>

definition close_error :: exn where
  "close_error = Exn ''Error'' ''Browser.close: Connection closed''"

definition failing_teardown_env :: env where
  "failing_teardown_env =
     \<lparr>responds = (\<lambda>n a. if a = Browser_close then Some close_error else None),
      stop_before = (\<lambda>k. False)\<rparr>"

section \<open>Sequencing and frame lemmas\<close>

lemma seq_append:
  "seq (xs @ ys) s =
     (case seq xs s of (Raised e, s') \<Rightarrow> (Raised e, s') | (Normal, s') \<Rightarrow> seq ys s')"
  by (induction xs arbitrary: s) (auto split: prod.splits outcome.splits)

lemma seq_single: "seq [m] s = m s"
  by (auto split: prod.splits outcome.splits)

lemma parts_append:
  "parts (ps @ qs) s =
     (case parts ps s of (Go_on, s') \<Rightarrow> parts qs s' | (Return, s') \<Rightarrow> (Return, s')
      | (Raise e, s') \<Rightarrow> (Raise e, s'))"
  by (induction ps arbitrary: s) (auto split: prod.splits flow.splits)

lemma list_all_mono: "list_all P xs \<Longrightarrow> (\<And>x. P x \<Longrightarrow> Q x) \<Longrightarrow> list_all Q xs"
  by (induction xs) auto

lemma setup_event_body: "setup_event ev \<Longrightarrow> body_event ev"
  by (cases ev) auto

lemma emitsI:
  assumes "\<And>s. \<exists>evs. trace (snd (m s)) = trace s @ evs \<and> list_all P evs
          \<and> is_running (snd (m s)) = is_running s
          \<and> n_reads (snd (m s)) = n_reads s
          \<and> driver (snd (m s)) = driver s
          \<and> (page s \<longrightarrow> page (snd (m s)))"
  shows "emits P m"
  using assms unfolding emits_def by blast

lemma emitsD:
  assumes "emits P m" "m s = (r, s')"
  obtains evs where "trace s' = trace s @ evs" "list_all P evs" "driver s' = driver s"
    "is_running s' = is_running s" "n_reads s' = n_reads s" "page s \<longrightarrow> page s'"
  using assms unfolding emits_def by (metis snd_conv)

lemma emits_progress: "P (Progress msg) \<Longrightarrow> emits P (progress_callback msg)"
  by (simp add: emits_def progress_callback_def log_def)

lemma emits_enter: "P (Called c) \<Longrightarrow> emits P (enter c)"
  by (simp add: emits_def enter_def log_def)

lemma emits_act: "P (Act a) \<Longrightarrow> emits P (act env a)"
  by (simp add: emits_def act_def log_def Let_def split: option.splits)

lemma emits_raise: "emits P (raise e)"
  by (simp add: emits_def raise_def)

lemma emits_assign:
  "(\<And>s. trace (f s) = trace s \<and> is_running (f s) = is_running s \<and> n_reads (f s) = n_reads s
        \<and> driver (f s) = driver s \<and> (page s \<longrightarrow> page (f s)))
   \<Longrightarrow> emits P (assign f)"
  by (simp add: emits_def assign_def)

lemma emits_if: "emits P a \<Longrightarrow> emits P b \<Longrightarrow> emits P (\<lambda>s. if c s then a s else b s)"
  by (simp add: emits_def)

lemma emits_seq: "list_all (emits P) ms \<Longrightarrow> emits P (seq ms)"
proof (induction ms)
  case Nil
  show ?case by (simp add: emits_def)
next
  case (Cons m ms)
  then have m: "emits P m" and ms: "emits P (seq ms)" by simp_all
  show ?case
  proof (rule emitsI)
    fix s
    obtain r s1 where r: "m s = (r, s1)" by (cases "m s")
    from emitsD[OF m r] obtain evs1 where 1: "trace s1 = trace s @ evs1" "list_all P evs1"
      "is_running s1 = is_running s" "n_reads s1 = n_reads s" "driver s1 = driver s"
      "page s \<longrightarrow> page s1"
      by blast
    obtain r2 s2 where r2: "seq ms s1 = (r2, s2)" by (cases "seq ms s1")
    from emitsD[OF ms r2] obtain evs2 where 2: "trace s2 = trace s1 @ evs2" "list_all P evs2"
      "is_running s2 = is_running s1" "n_reads s2 = n_reads s1" "driver s2 = driver s1"
      "page s1 \<longrightarrow> page s2"
      by blast
    let ?R = "snd (seq (m # ms) s)"
    show "\<exists>evs. trace ?R = trace s @ evs \<and> list_all P evs
          \<and> is_running ?R = is_running s \<and> n_reads ?R = n_reads s \<and> driver ?R = driver s
          \<and> (page s \<longrightarrow> page ?R)"
    proof (cases r)
      case Normal
      with r r2 1 2 show ?thesis by (intro exI[of _ "evs1 @ evs2"]) simp
    next
      case (Raised e)
      with r 1 show ?thesis by (intro exI[of _ evs1]) simp
    qed
  qed
qed

lemma emits_try_except:
  assumes "emits P body" "\<And>e. emits P (handler e)"
  shows "emits P (try_except body handler)"
proof (rule emitsI)
  fix s
  obtain r s1 where r: "body s = (r, s1)" by (cases "body s")
  from emitsD[OF assms(1) r] obtain evs1 where 1: "trace s1 = trace s @ evs1" "list_all P evs1"
      "is_running s1 = is_running s" "n_reads s1 = n_reads s" "driver s1 = driver s"
      "page s \<longrightarrow> page s1"
    by blast
  let ?R = "snd (try_except body handler s)"
  show "\<exists>evs. trace ?R = trace s @ evs \<and> list_all P evs
          \<and> is_running ?R = is_running s \<and> n_reads ?R = n_reads s \<and> driver ?R = driver s
          \<and> (page s \<longrightarrow> page ?R)"
  proof (cases r)
    case Normal
    with r 1 show ?thesis by (intro exI[of _ evs1]) (simp add: try_except_def)
  next
    case (Raised e)
    obtain r2 s2 where r2: "handler e s1 = (r2, s2)" by (cases "handler e s1")
    from emitsD[OF assms(2) r2] obtain evs2 where 2: "trace s2 = trace s1 @ evs2" "list_all P evs2"
      "is_running s2 = is_running s1" "n_reads s2 = n_reads s1" "driver s2 = driver s1"
      "page s1 \<longrightarrow> page s2"
      by blast
    with r r2 1 Raised show ?thesis by (intro exI[of _ "evs1 @ evs2"]) (simp add: try_except_def)
  qed
qed

section \<open>The methods of the driver\<close>

lemma emits_launch: "emits setup_event (launch env)"
  unfolding launch_def
  by (intro emits_seq) (simp add: emits_progress emits_enter emits_act emits_assign)

lemma emits_settle: "emits setup_event (wait_for_page_to_settle env)"
  unfolding wait_for_page_to_settle_def
  by (intro emits_seq) (simp add: emits_progress emits_enter emits_act)

lemma emits_mfa_selection: "emits setup_event (mfa_selection env)"
  unfolding mfa_selection_def
  by (intro emits_try_except emits_seq)
     (simp_all add: mfa_selection_steps_def emits_progress emits_act)

lemma emits_login: "emits setup_event (login env url em pw)"
  unfolding login_def
  apply (intro emits_seq)
  apply (simp add: emits_enter)
  apply (intro emits_if emits_raise emits_seq)
  apply (simp add: credential_steps_def approval_steps_def emits_progress emits_act
      emits_mfa_selection)
  done

lemma emits_create_steps:
  "emits setup_event (\<lambda>s. if \<not> page s then raise (Exn ''Exception'' ''Browser is not launched.'') s
            else seq (create_steps env url u pw) s)"
  by (intro emits_if emits_raise emits_seq)
     (simp add: create_steps_def emits_progress emits_act emits_settle)

text \<open>A call of \<open>create_standard_user\<close> is its entry followed by setup events only.\<close>

lemma create_shape:
  assumes "create_standard_user env url u pw s = (r, s')"
  obtains evs where "trace s' = trace s @ Called (Create u) # evs" "list_all setup_event evs"
    "driver s' = driver s" "is_running s' = is_running s" "n_reads s' = n_reads s"
    "page s \<longrightarrow> page s'"
proof -
  let ?rest = "\<lambda>s. if \<not> page s then raise (Exn ''Exception'' ''Browser is not launched.'') s
            else seq (create_steps env url u pw) s"
  have "create_standard_user env url u pw s = ?rest (log (Called (Create u)) s)"
    unfolding create_standard_user_def seq.simps(2)[of "enter (Create u)"] seq_single
    by (simp add: enter_def)
  with assms have "?rest (log (Called (Create u)) s) = (r, s')"
    by simp
  from emitsD[OF emits_create_steps this] that show ?thesis
    by (auto simp: log_def)
qed

lemma close_shape:
  "\<exists>evs. trace (snd (close env s)) = trace s @ Called Close # evs \<and> list_all teardown_event evs
        \<and> driver (snd (close env s)) = driver s \<and> count_list evs (Act Browser_close) \<le> 1"
  by (simp add: close_def enter_def act_def progress_callback_def log_def Let_def
      split: option.splits)

section \<open>The parts of the worker's body\<close>

lemma yieldsI:
  assumes "\<And>s. \<exists>evs. trace (snd (p s)) = trace s @ evs \<and> list_all P evs
             \<and> driver (snd (p s)) = driver s"
  shows "yields P p"
  using assms unfolding yields_def by blast

lemma yieldsD:
  assumes "yields P p" "p s = (fl, s')"
  obtains evs where "trace s' = trace s @ evs" "list_all P evs" "driver s' = driver s"
  using assms unfolding yields_def by (metis snd_conv)

lemma yields_mono: "yields P p \<Longrightarrow> (\<And>ev. P ev \<Longrightarrow> Q ev) \<Longrightarrow> yields Q p"
  unfolding yields_def by (meson list_all_mono)

lemma yields_do_step: assumes "emits P m" shows "yields P (do_step m)"
proof (rule yieldsI)
  fix s
  obtain r s' where r: "m s = (r, s')" by (cases "m s")
  from emitsD[OF assms r] obtain evs where
    "trace s' = trace s @ evs" "list_all P evs" "driver s' = driver s"
    by blast
  with r show "\<exists>evs. trace (snd (do_step m s)) = trace s @ evs \<and> list_all P evs
                 \<and> driver (snd (do_step m s)) = driver s"
    by (intro exI[of _ evs]) (auto simp: do_step_def split: outcome.splits)
qed

lemma yields_progress: "yields setup_event (do_step (progress_callback msg))"
  by (rule yields_do_step[OF emits_progress]) simp

lemma yields_skip: "yields P (\<lambda>s. (Go_on, s))"
  by (simp add: yields_def)

lemma yields_if: "yields P a \<Longrightarrow> yields P b \<Longrightarrow> yields P (\<lambda>s. if c then a s else b s)"
  by (simp add: yields_def)

text \<open>One read of the flag: nothing happens, or a \<^verbatim>\<open>stop()\<close> is seen and the flag is down.\<close>

lemma read_is_running_cases:
  assumes "read_is_running env s = (r, s')"
  shows "r = is_running s' \<and> driver s' = driver s \<and> page s' = page s
         \<and> n_acts s' = n_acts s \<and> n_reads s' = Suc (n_reads s) \<and>
         ((trace s' = trace s \<and> is_running s' = is_running s)
          \<or> (trace s' = trace s @ [Called Stop, Progress ''Stopping process...'']
              \<and> \<not> is_running s'))"
  using assms by (auto simp: read_is_running_def stop_def log_def Let_def split: if_splits)

lemma read_is_running_events:
  assumes "read_is_running env s = (r, s')"
  obtains evs where "trace s' = trace s @ evs" "list_all setup_event evs" "list_all quiet_event evs"
    "driver s' = driver s"
  using read_is_running_cases[OF assms] by auto

lemma yields_return_if_stopped: "yields setup_event (return_if_stopped env)"
proof (rule yieldsI)
  fix s
  obtain r s' where r: "read_is_running env s = (r, s')" by (cases "read_is_running env s")
  from read_is_running_events[OF r] obtain evs where
    "trace s' = trace s @ evs" "list_all setup_event evs" "driver s' = driver s"
    by blast
  with r
  show "\<exists>evs. trace (snd (return_if_stopped env s)) = trace s @ evs \<and> list_all setup_event evs
          \<and> driver (snd (return_if_stopped env s)) = driver s"
    by (intro exI[of _ evs]) (simp add: return_if_stopped_def)
qed

lemma yields_parts: "list_all (yields P) ps \<Longrightarrow> yields P (parts ps)"
proof (induction ps)
  case Nil
  show ?case by (simp add: yields_def)
next
  case (Cons p ps)
  then have p: "yields P p" and ps: "yields P (parts ps)" by simp_all
  show ?case
  proof (rule yieldsI)
    fix s
    obtain fl s1 where r: "p s = (fl, s1)" by (cases "p s")
    from yieldsD[OF p r] obtain evs1 where
      1: "trace s1 = trace s @ evs1" "list_all P evs1" "driver s1 = driver s"
      by blast
    obtain fl2 s2 where r2: "parts ps s1 = (fl2, s2)" by (cases "parts ps s1")
    from yieldsD[OF ps r2] obtain evs2 where
      2: "trace s2 = trace s1 @ evs2" "list_all P evs2" "driver s2 = driver s1"
      by blast
    show "\<exists>evs. trace (snd (parts (p # ps) s)) = trace s @ evs \<and> list_all P evs
          \<and> driver (snd (parts (p # ps) s)) = driver s"
    proof (cases fl)
      case Go_on
      with r r2 1 2 show ?thesis by (intro exI[of _ "evs1 @ evs2"]) simp
    next
      case Return
      with r 1 show ?thesis by (intro exI[of _ evs1]) simp
    next
      case (Raise e)
      with r 1 show ?thesis by (intro exI[of _ evs1]) simp
    qed
  qed
qed

text \<open>
  One turn of either loop, as far as the trace goes: the read of the flag, then (if the
  flag is up) the call of \<open>create_standard_user\<close>.
\<close>

lemma loop_turn:
  assumes "read_is_running env s = (r, s1)"
    and "create_standard_user env url u pw s1 = (c, s2)"
  obtains evs evs' where
    "trace s1 = trace s @ evs" "list_all body_event evs" "driver s1 = driver s"
    "trace s2 = trace s1 @ evs'" "list_all body_event evs'" "driver s2 = driver s1"
proof -
  from read_is_running_events[OF assms(1)] obtain evs where
    1: "trace s1 = trace s @ evs" "list_all setup_event evs" "driver s1 = driver s"
    by blast
  from create_shape[OF assms(2)] obtain evs2 where
    2: "trace s2 = trace s1 @ Called (Create u) # evs2" "list_all setup_event evs2"
       "driver s2 = driver s1"
    by blast
  have "list_all body_event evs" "list_all body_event (Called (Create u) # evs2)"
    using 1(2) 2(2) by (auto intro: list_all_mono setup_event_body)
  with 1 2 that show ?thesis by blast
qed

lemma yields_lvc_loop: "yields body_event (lvc_loop env w us)"
proof (induction us)
  case Nil
  show ?case by (simp add: yields_def)
next
  case (Cons u us)
  show ?case
  proof (rule yieldsI)
    fix s
    obtain r s1 where r: "read_is_running env s = (r, s1)" by (cases "read_is_running env s")
    obtain c s2 where c: "create_standard_user env (gtp_url w) u (user_password w) s1 = (c, s2)"
      by (cases "create_standard_user env (gtp_url w) u (user_password w) s1")
    from loop_turn[OF r c] obtain evs1 evs2 where
      1: "trace s1 = trace s @ evs1" "list_all body_event evs1" "driver s1 = driver s" and
      2: "trace s2 = trace s1 @ evs2" "list_all body_event evs2" "driver s2 = driver s1"
      by metis
    obtain fl3 s3 where l: "lvc_loop env w us s2 = (fl3, s3)" by (cases "lvc_loop env w us s2")
    from yieldsD[OF Cons l] obtain evs3 where
      3: "trace s3 = trace s2 @ evs3" "list_all body_event evs3" "driver s3 = driver s2"
      by blast
    let ?R = "lvc_loop env w (u # us) s"
    show "\<exists>evs. trace (snd ?R) = trace s @ evs \<and> list_all body_event evs
            \<and> driver (snd ?R) = driver s"
    proof (cases r)
      case False
      with r 1 show ?thesis by (intro exI[of _ evs1]) simp
    next
      case True
      show ?thesis
      proof (cases c)
        case (Raised e)
        with True r c 1 2 show ?thesis by (intro exI[of _ "evs1 @ evs2"]) simp
      next
        case Normal
        show ?thesis
        proof (cases "debug_mode w")
          case True
          with \<open>r\<close> Normal r c 1 2 show ?thesis
            by (intro exI[of _ "evs1 @ evs2 @
                  [Progress ''--- DEBUG MODE: Halting after first LVC user. ---'']"])
               (simp add: log_def)
        next
          case False
          with \<open>r\<close> Normal r c l 1 2 3 show ?thesis
            by (intro exI[of _ "evs1 @ evs2 @ evs3"]) simp
        qed
      qed
    qed
  qed
qed

lemma yields_standard_loop: "yields body_event (standard_loop env w us)"
proof (induction us)
  case Nil
  show ?case by (simp add: yields_def)
next
  case (Cons u us)
  show ?case
  proof (rule yieldsI)
    fix s
    obtain r s1 where r: "read_is_running env s = (r, s1)" by (cases "read_is_running env s")
    obtain c s2 where c: "create_standard_user env (gtp_url w) u (user_password w) s1 = (c, s2)"
      by (cases "create_standard_user env (gtp_url w) u (user_password w) s1")
    from loop_turn[OF r c] obtain evs1 evs2 where
      1: "trace s1 = trace s @ evs1" "list_all body_event evs1" "driver s1 = driver s" and
      2: "trace s2 = trace s1 @ evs2" "list_all body_event evs2" "driver s2 = driver s1"
      by metis
    obtain fl3 s3 where l: "standard_loop env w us s2 = (fl3, s3)"
      by (cases "standard_loop env w us s2")
    from yieldsD[OF Cons l] obtain evs3 where
      3: "trace s3 = trace s2 @ evs3" "list_all body_event evs3" "driver s3 = driver s2"
      by blast
    let ?R = "standard_loop env w (u # us) s"
    show "\<exists>evs. trace (snd ?R) = trace s @ evs \<and> list_all body_event evs
            \<and> driver (snd ?R) = driver s"
    proof (cases r)
      case False
      with r 1 show ?thesis by (intro exI[of _ evs1]) simp
    next
      case True
      show ?thesis
      proof (cases c)
        case (Raised e)
        with True r c 1 2 show ?thesis by (intro exI[of _ "evs1 @ evs2"]) simp
      next
        case Normal
        with True r c l 1 2 3 show ?thesis
          by (intro exI[of _ "evs1 @ evs2 @ evs3"]) simp
      qed
    qed
  qed
qed

lemma yields_standard_phase: "yields body_event (standard_phase env w)"
proof -
  have "yields body_event (parts [return_if_stopped env,
              do_step (progress_callback (CHR 0x0A # ''Step 3: Processing Standard users...'')),
              standard_loop env w (standard_users w)])"
    by (rule yields_parts)
       (simp add: yields_mono[OF yields_return_if_stopped setup_event_body]
          yields_mono[OF yields_progress setup_event_body] yields_standard_loop)
  then show ?thesis
    by (simp add: yields_def standard_phase_def)
qed

lemma yields_report_complete: "yields setup_event (report_complete env)"
proof (rule yieldsI)
  fix s
  obtain r s' where r: "read_is_running env s = (r, s')" by (cases "read_is_running env s")
  from read_is_running_events[OF r] obtain evs where
    1: "trace s' = trace s @ evs" "list_all setup_event evs" "driver s' = driver s"
    by blast
  show "\<exists>evs. trace (snd (report_complete env s)) = trace s @ evs \<and> list_all setup_event evs
          \<and> driver (snd (report_complete env s)) = driver s"
  proof (cases r)
    case True
    with r 1 show ?thesis
      by (intro exI[of _ "evs @ [Progress (CHR 0x0A # ''Automation complete!'')]"])
         (simp add: report_complete_def do_step_def progress_callback_def log_def)
  next
    case False
    with r 1 show ?thesis
      by (intro exI[of _ evs]) (simp add: report_complete_def)
  qed
qed

lemma run_body_split:
  "run_body env w =
     parts (setup_parts env w @
            [lvc_loop env w (lvc_users w), standard_phase env w, report_complete env])"
  by (simp add: run_body_def setup_parts_def)

lemma setup_parts_yield: "list_all (yields setup_event) (setup_parts env w)"
  unfolding setup_parts_def
  by (simp add: yields_progress yields_return_if_stopped yields_if yields_skip
        yields_do_step[OF emits_launch] yields_do_step[OF emits_login]
        yields_do_step[OF emits_settle])

lemma yields_setup_parts: "yields setup_event (parts (setup_parts env w))"
  by (rule yields_parts) (rule setup_parts_yield)

lemma yields_run_body: "yields body_event (run_body env w)"
proof -
  have "list_all (yields body_event) (setup_parts env w)"
    using setup_parts_yield[of env w]
    by (rule list_all_mono) (rule yields_mono, assumption, rule setup_event_body)
  then show ?thesis
    unfolding run_body_split
    by (intro yields_parts)
       (simp add: yields_lvc_loop yields_standard_phase
          yields_mono[OF yields_report_complete setup_event_body])
qed

section \<open>The whole run\<close>

lemma run_shape:
  assumes "run_body env w (s\<lparr>driver := True\<rparr>) = (fl, s1)"
  shows "\<exists>tevs fin.
     trace (snd (run env w s)) = trace s1 @ reported fl @ Called Close # tevs @ fin
     \<and> list_all teardown_event tevs \<and> count_list tevs (Act Browser_close) \<le> 1
     \<and> ((fst (run env w s) = Normal \<and> fin = [Automation_finished])
        \<or> ((\<exists>e. fst (run env w s) = Raised e) \<and> fin = []))"
proof -
  from yieldsD[OF yields_run_body assms] have d: "driver s1"
    by auto
  define s2 where "s2 = (case fl of Raise e \<Rightarrow> on_exception e s1 | _ \<Rightarrow> s1)"
  have 2: "trace s2 = trace s1 @ reported fl" "driver s2"
    using d by (auto simp: s2_def on_exception_def log_def split: flow.splits)
  have r: "run env w s = finally_clause env s2"
    using assms by (auto simp: run_def s2_def split: flow.splits)
  obtain c s3 where c: "close env s2 = (c, s3)" by (cases "close env s2")
  from close_shape[of env s2] c
  obtain tevs where 3: "trace s3 = trace s2 @ Called Close # tevs" "list_all teardown_event tevs"
    "count_list tevs (Act Browser_close) \<le> 1"
    by auto
  show ?thesis
  proof (cases c)
    case Normal
    with c 2 have "finally_clause env s2 = (Normal, log Automation_finished s3)"
      by (simp add: finally_clause_def assign_def)
    with r 2 3 show ?thesis
      by (intro exI[of _ tevs] exI[of _ "[Automation_finished]"]) (simp add: log_def)
  next
    case (Raised x)
    with c 2 have "finally_clause env s2 = (Raised x, s3)"
      by (simp add: finally_clause_def)
    with r 2 3 show ?thesis
      by (intro exI[of _ tevs] exI[of _ "[]"]) simp
  qed
qed

lemma run_events:
  obtains body fl tevs fin where
    "trace (snd (run env w initial_state)) = body @ reported fl @ Called Close # tevs @ fin"
    "list_all body_event body" "list_all teardown_event tevs"
    "count_list tevs (Act Browser_close) \<le> 1"
    "(fst (run env w initial_state) = Normal \<and> fin = [Automation_finished])
        \<or> ((\<exists>e. fst (run env w initial_state) = Raised e) \<and> fin = [])"
    "\<exists>s1. run_body env w (initial_state\<lparr>driver := True\<rparr>) = (fl, s1) \<and> trace s1 = body"
proof -
  obtain fl s1 where b: "run_body env w (initial_state\<lparr>driver := True\<rparr>) = (fl, s1)"
    by (cases "run_body env w (initial_state\<lparr>driver := True\<rparr>)")
  from yieldsD[OF yields_run_body b] have 1: "list_all body_event (trace s1)"
    by (auto simp: initial_state_def)
  from run_shape[OF b] 1 b that show ?thesis
    by blast
qed

lemma count_list_none: "list_all P xs \<Longrightarrow> \<not> P x \<Longrightarrow> count_list xs x = 0"
  by (induction xs) auto

lemma count_list_reported [simp]:
  "count_list (reported fl) (Called c) = 0" "count_list (reported fl) Automation_finished = 0"
  by (cases fl; simp)+

text \<open>
  Claim C3. On every path through \<^verbatim>\<open>run\<close> (normal completion, an early \<^verbatim>\<open>return\<close> or a
  \<^verbatim>\<open>break\<close> after a cancellation, an exception from any phase) \<^verbatim>\<open>BrowserDriver.close\<close> is
  called exactly once, whatever the browser answers and whenever the operator cancels;
  and the browser itself is closed at most once.
\<close>

theorem close_called_exactly_once:
  "count_list (trace (snd (run env w initial_state))) (Called Close) = 1
   \<and> count_list (trace (snd (run env w initial_state))) (Act Browser_close) \<le> 1"
proof -
  obtain body fl tevs fin where
    t: "trace (snd (run env w initial_state)) = body @ reported fl @ Called Close # tevs @ fin"
    and b: "list_all body_event body"
    and c: "list_all teardown_event tevs"
    and n: "count_list tevs (Act Browser_close) \<le> 1"
    and f: "(fst (run env w initial_state) = Normal \<and> fin = [Automation_finished])
        \<or> ((\<exists>e. fst (run env w initial_state) = Raised e) \<and> fin = [])"
    by (rule run_events)
  have "count_list body (Called Close) = 0" using b by (rule count_list_none) simp
  moreover have "count_list tevs (Called Close) = 0" using c by (rule count_list_none) simp
  moreover have "count_list fin (Called Close) = 0" using f by auto
  moreover have "count_list body (Act Browser_close) = 0" using b by (rule count_list_none) simp
  moreover have "count_list (reported fl) (Act Browser_close) = 0" by (cases fl) auto
  moreover have "count_list fin (Act Browser_close) = 0" using f by auto
  ultimately show ?thesis
    using t n by simp
qed

text \<open>
  When the teardown returns, the completion signal is emitted once and last, and the
  error signal at most once.
\<close>

lemma completion_when_teardown_returns:
  assumes "fst (run env w initial_state) = Normal"
  shows "count_list (trace (snd (run env w initial_state))) Automation_finished = 1
       \<and> last (trace (snd (run env w initial_state))) = Automation_finished
       \<and> length (filter (\<lambda>ev. \<exists>m. ev = Automation_error m)
                   (trace (snd (run env w initial_state)))) \<le> 1"
proof -
  obtain body fl tevs fin where
    t: "trace (snd (run env w initial_state)) = body @ reported fl @ Called Close # tevs @ fin"
    and b: "list_all body_event body"
    and c: "list_all teardown_event tevs"
    and f: "(fst (run env w initial_state) = Normal \<and> fin = [Automation_finished])
        \<or> ((\<exists>e. fst (run env w initial_state) = Raised e) \<and> fin = [])"
    by (rule run_events)
  from f assms have fin: "fin = [Automation_finished]" by auto
  have "count_list body Automation_finished = 0" using b by (rule count_list_none) simp
  moreover have "count_list tevs Automation_finished = 0" using c by (rule count_list_none) simp
  moreover have "filter (\<lambda>ev. \<exists>m. ev = Automation_error m) body = []"
    using b by (induction body) auto
  moreover have "filter (\<lambda>ev. \<exists>m. ev = Automation_error m) tevs = []"
    using c by (induction tevs) auto
  moreover have "length (filter (\<lambda>ev. \<exists>m. ev = Automation_error m) (reported fl)) \<le> 1"
    by (cases fl) auto
  ultimately show ?thesis
    using t fin by simp
qed

text \<open>When the teardown raises, the completion signal is not emitted at all.\<close>

lemma no_completion_when_teardown_raises:
  assumes "fst (run env w initial_state) = Raised e"
  shows "count_list (trace (snd (run env w initial_state))) Automation_finished = 0"
proof -
  obtain body fl tevs fin where
    t: "trace (snd (run env w initial_state)) = body @ reported fl @ Called Close # tevs @ fin"
    and b: "list_all body_event body"
    and c: "list_all teardown_event tevs"
    and f: "(fst (run env w initial_state) = Normal \<and> fin = [Automation_finished])
        \<or> ((\<exists>e. fst (run env w initial_state) = Raised e) \<and> fin = [])"
    by (rule run_events)
  from f assms have fin: "fin = []" by auto
  have "count_list body Automation_finished = 0" using b by (rule count_list_none) simp
  moreover have "count_list tevs Automation_finished = 0" using c by (rule count_list_none) simp
  ultimately show ?thesis
    using t fin by simp
qed

text \<open>The definitions to unfold when a run is evaluated on concrete input.\<close>

lemmas run_eval =
  run_def run_body_def finally_clause_def on_exception_def close_def launch_def login_def
  wait_for_page_to_settle_def create_standard_user_def create_steps_def credential_steps_def
  mfa_selection_def mfa_selection_steps_def approval_steps_def try_except_def
  standard_phase_def report_complete_def return_if_stopped_def read_is_running_def stop_def
  do_step_def act_def enter_def progress_callback_def assign_def raise_def log_def Let_def
  initial_state_def

text \<open>
  Claim C4. The completion signal is emitted in the \<^verbatim>\<open>finally\<close> clause, after the call
  of \<^verbatim>\<open>close()\<close>. In the run below every Playwright call succeeds (the user lists are
  empty) until \<^verbatim>\<open>browser.close()\<close> raises: the exception leaves \<^verbatim>\<open>run\<close> and the completion
  signal is never emitted.
\<close>

theorem completion_signal_lost_when_close_raises:
  "fst (run failing_teardown_env idle_worker initial_state) = Raised close_error
   \<and> count_list (trace (snd (run failing_teardown_env idle_worker initial_state)))
        Automation_finished = 0"
  by (simp add: run_eval failing_teardown_env_def idle_worker_def)

section \<open>Runs in which setup and provisioning succeed and nobody cancels\<close>

lemma emits_is_running: "emits P m \<Longrightarrow> is_running (snd (m s)) = is_running s"
  unfolding emits_def by blast

lemma emits_page: "emits P m \<Longrightarrow> page s \<Longrightarrow> page (snd (m s))"
  unfolding emits_def by blast

lemma completesD: "completes m \<Longrightarrow> page s \<Longrightarrow> m s = (r, s') \<Longrightarrow> r = Normal"
  unfolding completes_def by (metis fst_conv)

lemma completesI: "(\<And>s r s'. page s \<Longrightarrow> m s = (r, s') \<Longrightarrow> r = Normal) \<Longrightarrow> completes m"
  unfolding completes_def by (metis prod.collapse)

lemma completes_progress: "completes (progress_callback msg)"
  by (simp add: completes_def progress_callback_def)

lemma completes_act_when: "(\<And>n. responds env n a = None) \<Longrightarrow> completes (act env a)"
  by (simp add: completes_def act_def)

lemma completes_enter: "completes (enter c)"
  by (simp add: completes_def enter_def)

lemma completes_seq:
  "list_all (\<lambda>m. completes m \<and> emits P m) ms \<Longrightarrow> completes (seq ms)"
proof (induction ms)
  case Nil
  show ?case by (simp add: completes_def)
next
  case (Cons m ms)
  then have m: "completes m" "emits P m" and ms: "completes (seq ms)" by simp_all
  show ?case
    unfolding completes_def
  proof (intro allI impI)
    fix s :: state assume p: "page s"
    obtain r s1 where r: "m s = (r, s1)" by (cases "m s")
    from completesD[OF m(1) p r] have n: "r = Normal" .
    from emits_page[OF m(2) p] r have p1: "page s1" by simp
    obtain r2 s2 where r2: "seq ms s1 = (r2, s2)" by (cases "seq ms s1")
    from completesD[OF ms p1 r2] have "r2 = Normal" .
    with n r r2 show "fst (seq (m # ms) s) = Normal"
      by simp
  qed
qed

lemma completes_try_except: "completes body \<Longrightarrow> completes (try_except body handler)"
  by (auto simp: completes_def try_except_def split: prod.splits outcome.splits)

lemma completes_settle:
  assumes "\<And>n. responds env n (Wait_for_load_state ''networkidle'' 30000) = None"
  shows "completes (wait_for_page_to_settle env)"
  unfolding wait_for_page_to_settle_def
  by (rule completes_seq[where P = setup_event])
     (simp add: completes_progress completes_act_when[OF assms] completes_enter
        emits_progress emits_act emits_enter)

text \<open>Whatever happens inside it, the MFA selection returns normally.\<close>

lemma mfa_selection_never_raises: "fst (mfa_selection env s) = Normal"
  by (cases "seq (mfa_selection_steps env) s")
     (auto simp: mfa_selection_def try_except_def progress_callback_def split: outcome.splits)

lemma completes_mfa_selection: "completes (mfa_selection env)"
  by (simp add: completes_def mfa_selection_never_raises)

lemma login_unfold:
  "login env url em pw s =
     (if \<not> page s
      then (Raised (Exn ''Exception'' ''Browser is not launched. Call launch() first.''),
            log (Called Login) s)
      else seq (credential_steps env url em pw @ [mfa_selection env] @ approval_steps env)
             (log (Called Login) s))"
  unfolding login_def seq.simps(2)[of "enter Login"] seq_single
  by (simp add: enter_def raise_def log_def)

lemma create_unfold:
  "create_standard_user env url u pw s =
     (if \<not> page s
      then (Raised (Exn ''Exception'' ''Browser is not launched.''), log (Called (Create u)) s)
      else seq (create_steps env url u pw) (log (Called (Create u)) s))"
  unfolding create_standard_user_def seq.simps(2)[of "enter (Create u)"] seq_single
  by (simp add: enter_def raise_def log_def)

lemma completes_login:
  assumes ok: "\<And>n a. a \<in> set (login_actions url em pw) \<Longrightarrow> responds env n a = None"
  shows "completes (login env url em pw)"
proof -
  have c: "completes (seq (credential_steps env url em pw @ [mfa_selection env]
           @ approval_steps env))"
    by (rule completes_seq[where P = setup_event])
       (simp add: credential_steps_def approval_steps_def completes_progress
          completes_act_when[OF ok] login_actions_def
          completes_mfa_selection emits_progress emits_act emits_mfa_selection)
  show ?thesis
  proof (rule completesI)
    fix s r s' assume "page s" "login env url em pw s = (r, s')"
    then have "page (log (Called Login) s)"
      and "seq (credential_steps env url em pw @ [mfa_selection env] @ approval_steps env)
             (log (Called Login) s) = (r, s')"
      by (simp_all add: login_unfold log_def)
    then show "r = Normal" by (rule completesD[OF c])
  qed
qed

lemma completes_create:
  assumes ok: "\<And>n a. a \<in> set (provisioning_actions url u pw) \<Longrightarrow> responds env n a = None"
  shows "completes (create_standard_user env url u pw)"
proof -
  have st: "completes (wait_for_page_to_settle env)"
    by (rule completes_settle) (simp add: ok provisioning_actions_def)
  have c: "completes (seq (create_steps env url u pw))"
    by (rule completes_seq[where P = setup_event])
       (simp add: create_steps_def completes_progress completes_act_when[OF ok]
          provisioning_actions_def st emits_progress emits_act emits_settle)
  show ?thesis
  proof (rule completesI)
    fix s r s' assume "page s" "create_standard_user env url u pw s = (r, s')"
    then have "page (log (Called (Create u)) s)"
      and "seq (create_steps env url u pw) (log (Called (Create u)) s) = (r, s')"
      by (simp_all add: create_unfold log_def)
    then show "r = Normal" by (rule completesD[OF c])
  qed
qed

lemma launch_when:
  assumes "\<And>n. responds env n Playwright_start = None"
    "\<And>n. responds env n Chromium_launch = None" "\<And>n. responds env n New_page = None"
  shows "fst (launch env s) = Normal \<and> page (snd (launch env s))
       \<and> browser (snd (launch env s)) \<and> playwright (snd (launch env s))"
  by (simp add: launch_def assms enter_def progress_callback_def act_def assign_def log_def)

lemma read_when_running:
  "never_stopped env \<Longrightarrow> is_running s \<Longrightarrow>
     read_is_running env s = (True, s\<lparr>n_reads := n_reads s + 1\<rparr>)"
  by (simp add: never_stopped_def read_is_running_def)

lemma created_append [simp]: "created (xs @ ys) = created xs @ created ys"
  by (induction xs rule: created.induct) auto

lemma created_setup: "list_all setup_event evs \<Longrightarrow> created evs = []"
  by (induction evs rule: created.induct) auto

lemma created_teardown: "list_all teardown_event evs \<Longrightarrow> created evs = []"
  by (induction evs rule: created.induct) auto

lemma created_reported [simp]: "created (reported fl) = []"
  by (cases fl) auto

text \<open>
  With the flag up, debug mode off and every provisioning sequence of the list
  completing, each loop goes through its whole list, one call of
  \<open>create_standard_user\<close> per record.
\<close>

lemma lvc_loop_all:
  assumes "never_stopped env" "\<not> debug_mode w"
  shows "\<forall>u \<in> set us. completes (create_standard_user env (gtp_url w) u (user_password w))
     \<Longrightarrow> is_running s \<Longrightarrow> page s \<Longrightarrow>
     \<exists>s' evs. lvc_loop env w us s = (Go_on, s') \<and> is_running s' \<and> page s'
        \<and> trace s' = trace s @ evs \<and> created evs = us"
proof (induction us arbitrary: s)
  case Nil
  then show ?case by simp
next
  case (Cons u us)
  let ?s1 = "s\<lparr>n_reads := n_reads s + 1\<rparr>"
  have r: "read_is_running env s = (True, ?s1)"
    using assms(1) Cons.prems(2) by (rule read_when_running)
  obtain c s2 where c: "create_standard_user env (gtp_url w) u (user_password w) ?s1 = (c, s2)"
    by (cases "create_standard_user env (gtp_url w) u (user_password w) ?s1")
  have cu: "completes (create_standard_user env (gtp_url w) u (user_password w))"
    using Cons.prems(1) by simp
  have n: "c = Normal"
    by (rule completesD[OF cu _ c]) (simp add: Cons.prems(3))
  from create_shape[OF c] obtain evs where
    2: "trace s2 = trace ?s1 @ Called (Create u) # evs" "list_all setup_event evs"
       "is_running s2 = is_running ?s1" "page ?s1 \<longrightarrow> page s2"
    by blast
  with Cons.prems have "is_running s2" "page s2" by simp_all
  moreover have "\<forall>u \<in> set us. completes (create_standard_user env (gtp_url w) u (user_password w))"
    using Cons.prems(1) by simp
  ultimately obtain s' evs' where
    3: "lvc_loop env w us s2 = (Go_on, s')" "is_running s'" "page s'"
       "trace s' = trace s2 @ evs'" "created evs' = us"
    using Cons.IH by blast
  from r c n 3 assms(2) have "lvc_loop env w (u # us) s = (Go_on, s')"
    by simp
  moreover have "trace s' = trace s @ (Called (Create u) # evs @ evs')"
    using 2 3 by simp
  moreover have "created (Called (Create u) # evs @ evs') = u # us"
    using 2 3 by (simp add: created_setup)
  ultimately show ?case using 3 by blast
qed

lemma standard_loop_all:
  assumes "never_stopped env"
  shows "\<forall>u \<in> set us. completes (create_standard_user env (gtp_url w) u (user_password w))
     \<Longrightarrow> is_running s \<Longrightarrow> page s \<Longrightarrow>
     \<exists>s' evs. standard_loop env w us s = (Go_on, s') \<and> is_running s' \<and> page s'
        \<and> trace s' = trace s @ evs \<and> created evs = us"
proof (induction us arbitrary: s)
  case Nil
  then show ?case by simp
next
  case (Cons u us)
  let ?s1 = "s\<lparr>n_reads := n_reads s + 1\<rparr>"
  have r: "read_is_running env s = (True, ?s1)"
    using assms(1) Cons.prems(2) by (rule read_when_running)
  obtain c s2 where c: "create_standard_user env (gtp_url w) u (user_password w) ?s1 = (c, s2)"
    by (cases "create_standard_user env (gtp_url w) u (user_password w) ?s1")
  have cu: "completes (create_standard_user env (gtp_url w) u (user_password w))"
    using Cons.prems(1) by simp
  have n: "c = Normal"
    by (rule completesD[OF cu _ c]) (simp add: Cons.prems(3))
  from create_shape[OF c] obtain evs where
    2: "trace s2 = trace ?s1 @ Called (Create u) # evs" "list_all setup_event evs"
       "is_running s2 = is_running ?s1" "page ?s1 \<longrightarrow> page s2"
    by blast
  with Cons.prems have "is_running s2" "page s2" by simp_all
  moreover have "\<forall>u \<in> set us. completes (create_standard_user env (gtp_url w) u (user_password w))"
    using Cons.prems(1) by simp
  ultimately obtain s' evs' where
    3: "standard_loop env w us s2 = (Go_on, s')" "is_running s'" "page s'"
       "trace s' = trace s2 @ evs'" "created evs' = us"
    using Cons.IH by blast
  from r c n 3 have "standard_loop env w (u # us) s = (Go_on, s')"
    by simp
  moreover have "trace s' = trace s @ (Called (Create u) # evs @ evs')"
    using 2 3 by simp
  moreover have "created (Called (Create u) # evs @ evs') = u # us"
    using 2 3 by (simp add: created_setup)
  ultimately show ?case using 3 by blast
qed

lemma do_step_progress: "do_step (progress_callback msg) s = (Go_on, log (Progress msg) s)"
  by (simp add: do_step_def progress_callback_def)

lemma do_step_completes: "completes m \<Longrightarrow> page s \<Longrightarrow> do_step m s = (Go_on, snd (m s))"
  by (cases "m s") (auto simp: do_step_def dest: completesD)

lemma do_step_returns: "fst (m s) = Normal \<Longrightarrow> do_step m s = (Go_on, snd (m s))"
  by (cases "m s") (auto simp: do_step_def)

lemma return_if_stopped_running:
  "never_stopped env \<Longrightarrow> is_running s \<Longrightarrow>
     return_if_stopped env s = (Go_on, s\<lparr>n_reads := n_reads s + 1\<rparr>)"
  by (simp add: return_if_stopped_def read_when_running)

lemma parts_split:
  assumes "parts (ps @ qs) s = (fl, s')"
  shows "(parts ps s = (fl, s') \<and> fl \<noteq> Go_on)
       \<or> (\<exists>s1. parts ps s = (Go_on, s1) \<and> parts qs s1 = (fl, s'))"
  using assms by (auto simp: parts_append split: prod.splits flow.splits)

text \<open>What the two hypotheses on the environment give, call by call.\<close>

lemma setup_succeedsD:
  assumes "setup_succeeds env w"
  shows "a \<in> set launch_actions \<Longrightarrow> responds env n a = None"
    and "a \<in> set (login_actions (gtp_url w) (email w) (password w)) \<Longrightarrow> responds env n a = None"
    and "a \<in> set settle_actions \<Longrightarrow> responds env n a = None"
  using assms unfolding setup_succeeds_def list_all_iff by auto

lemma provisioning_succeedsD:
  assumes "provisioning_succeeds env w" "u \<in> set (lvc_users w) \<or> u \<in> set (standard_users w)"
    "a \<in> set (provisioning_actions (gtp_url w) u (user_password w))"
  shows "responds env n a = None"
  using assms unfolding provisioning_succeeds_def list_all_iff by auto

text \<open>The setup goes through when its calls succeed and nobody cancels.\<close>

lemma setup_parts_all:
  assumes "setup_succeeds env w" "never_stopped env" "is_running s"
  shows "\<exists>s'. parts (setup_parts env w) s = (Go_on, s') \<and> is_running s' \<and> page s'"
proof -
  have la: "\<And>s. fst (launch env s) = Normal \<and> page (snd (launch env s))"
    using launch_when[of env] setup_succeedsD(1)[OF assms(1)]
    by (simp add: launch_actions_def)
  have lo: "completes (login env (gtp_url w) (email w) (password w))"
    by (rule completes_login) (rule setup_succeedsD(2)[OF assms(1)])
  have st: "completes (wait_for_page_to_settle env)"
    by (rule completes_settle) (simp add: setup_succeedsD(3)[OF assms(1)] settle_actions_def)
  note run = emits_is_running[OF emits_launch] emits_is_running[OF emits_login]
    emits_is_running[OF emits_settle]
  note pg = la[THEN conjunct2] emits_page[OF emits_login] emits_page[OF emits_settle]
  show ?thesis
    using assms(2,3)
    by (simp add: setup_parts_def do_step_progress do_step_returns[OF la[THEN conjunct1]]
        return_if_stopped_running do_step_completes lo st run pg log_def)
qed

lemma run_body_all:
  assumes "\<not> debug_mode w" "setup_succeeds env w" "provisioning_succeeds env w"
    "never_stopped env" "is_running s"
  shows "\<exists>fl s' evs. run_body env w s = (fl, s') \<and> trace s' = trace s @ evs
           \<and> created evs = lvc_users w @ standard_users w"
proof -
  have cl: "\<forall>u \<in> set (lvc_users w).
      completes (create_standard_user env (gtp_url w) u (user_password w))"
    by (intro ballI completes_create) (rule provisioning_succeedsD[OF assms(3)], simp_all)
  have cs: "\<forall>u \<in> set (standard_users w).
      completes (create_standard_user env (gtp_url w) u (user_password w))"
    by (intro ballI completes_create) (rule provisioning_succeedsD[OF assms(3)], simp_all)
  from setup_parts_all[OF assms(2,4,5)] obtain s1 where
    1: "parts (setup_parts env w) s = (Go_on, s1)" "is_running s1" "page s1"
    by blast
  from yieldsD[OF yields_setup_parts 1(1)] obtain evs1 where
    e1: "trace s1 = trace s @ evs1" "list_all setup_event evs1"
    by blast
  from lvc_loop_all[OF assms(4,1) cl 1(2,3)] obtain s2 evs2 where
    2: "lvc_loop env w (lvc_users w) s1 = (Go_on, s2)" "is_running s2" "page s2"
       "trace s2 = trace s1 @ evs2" "created evs2 = lvc_users w"
    by blast
  let ?s3 = "log (Progress (CHR 0x0A # ''Step 3: Processing Standard users...''))
               (s2\<lparr>n_reads := n_reads s2 + 1\<rparr>)"
  have "is_running ?s3" "page ?s3" using 2 by (simp_all add: log_def)
  from standard_loop_all[OF assms(4) cs this] obtain s4 evs4 where
    4: "standard_loop env w (standard_users w) ?s3 = (Go_on, s4)" "is_running s4"
       "trace s4 = trace ?s3 @ evs4" "created evs4 = standard_users w"
    by blast
  have sp: "standard_phase env w s2 = (Go_on, s4)"
    using assms(1,4) 2(2) 4(1)
    by (simp add: standard_phase_def return_if_stopped_running do_step_progress)
  obtain fl s5 where 5: "report_complete env s4 = (fl, s5)" by (cases "report_complete env s4")
  from yieldsD[OF yields_report_complete 5] obtain evs5 where
    e5: "trace s5 = trace s4 @ evs5" "list_all setup_event evs5"
    by blast
  have "run_body env w s = (fl, s5)"
    using 1(1) 2(1) sp 5 by (cases fl) (simp_all add: run_body_split parts_append)
  moreover have "trace s5 = trace s @ (evs1 @ evs2 @
      [Progress (CHR 0x0A # ''Step 3: Processing Standard users...'')] @ evs4 @ evs5)"
    using e1 2 4 e5 by (simp add: log_def)
  moreover have "created (evs1 @ evs2 @
      [Progress (CHR 0x0A # ''Step 3: Processing Standard users...'')] @ evs4 @ evs5)
      = lvc_users w @ standard_users w"
    using e1 2 4 e5 by (simp add: created_setup)
  ultimately show ?thesis by blast
qed

lemma created_run:
  "\<exists>fl s1. run_body env w (initial_state\<lparr>driver := True\<rparr>) = (fl, s1)
      \<and> created (trace (snd (run env w initial_state))) = created (trace s1)"
proof -
  obtain body fl tevs fin where
    t: "trace (snd (run env w initial_state)) = body @ reported fl @ Called Close # tevs @ fin"
    and c: "list_all teardown_event tevs"
    and f: "(fst (run env w initial_state) = Normal \<and> fin = [Automation_finished])
        \<or> ((\<exists>e. fst (run env w initial_state) = Raised e) \<and> fin = [])"
    and b: "\<exists>s1. run_body env w (initial_state\<lparr>driver := True\<rparr>) = (fl, s1) \<and> trace s1 = body"
    by (rule run_events)
  have "created fin = []" using f by auto
  with t c have "created (trace (snd (run env w initial_state))) = created body"
    by (simp add: created_teardown)
  with b show ?thesis by auto
qed

text \<open>
  Claim C1 as stated fails. It asks only that no provisioning step fails and that the flag
  is never cleared. In the run below both hold and debug mode is off, but the operator
  never approves the push: \<^verbatim>\<open>login\<close> raises, and neither of the two records is ever
  attempted.
\<close>

theorem no_record_created_when_login_fails:
  "\<not> debug_mode demo_worker
   \<and> provisioning_succeeds approval_timeout_env demo_worker
   \<and> never_stopped approval_timeout_env
   \<and> lvc_users demo_worker @ standard_users demo_worker = [alice, bob]
   \<and> created (trace (snd (run approval_timeout_env demo_worker initial_state))) = []"
proof -
  have "created (trace (snd (run approval_timeout_env demo_worker initial_state))) = []"
    by (simp add: run_eval approval_timeout_env_def demo_worker_def)
  moreover have "provisioning_succeeds approval_timeout_env demo_worker"
    by (simp add: provisioning_succeeds_def provisioning_actions_def approval_timeout_env_def
        demo_worker_def)
  ultimately show ?thesis
    by (simp add: demo_worker_def approval_timeout_env_def never_stopped_def)
qed

text \<open>
  Claim C1, as amended. With debug mode off, in a run in which the calls of launch, of
  login (outside the best-effort MFA-selection block) and of settling succeed, no call of
  a provisioning sequence fails and the cancellation flag is never cleared,
  \<^verbatim>\<open>create_standard_user\<close> is entered for every LVC record in list order and then for
  every standard record in list order, once each: \<open>M + N\<close> account-creation sequences for
  lists of \<open>M\<close> and \<open>N\<close> records. What the MFA-selection block and the teardown do is left
  open.
\<close>

theorem all_records_created_in_order:
  assumes "\<not> debug_mode w" and "setup_succeeds env w" and "provisioning_succeeds env w"
    and "never_stopped env"
  shows "created (trace (snd (run env w initial_state))) = lvc_users w @ standard_users w
       \<and> length (created (trace (snd (run env w initial_state))))
           = length (lvc_users w) + length (standard_users w)"
proof -
  from created_run[of env w] obtain fl s1 where
    b: "run_body env w (initial_state\<lparr>driver := True\<rparr>) = (fl, s1)"
    and c: "created (trace (snd (run env w initial_state))) = created (trace s1)"
    by blast
  have "is_running (initial_state\<lparr>driver := True\<rparr>)"
    by (simp add: initial_state_def)
  from run_body_all[OF assms this] b obtain evs where
    "trace s1 = trace (initial_state\<lparr>driver := True\<rparr>) @ evs"
    "created evs = lvc_users w @ standard_users w"
    by auto
  with c show ?thesis by (simp add: initial_state_def)
qed

text \<open>
  One LVC record and one standard record; the identity provider shows no selection
  screen, so a call inside the MFA-selection block raises, and both records are created
  all the same.
\<close>

theorem all_records_created_in_order_witness:
  "\<not> debug_mode demo_worker \<and> setup_succeeds no_push_option_env demo_worker
   \<and> provisioning_succeeds no_push_option_env demo_worker \<and> never_stopped no_push_option_env
   \<and> responds no_push_option_env 12 (Expect_visible push_option_locator 30000)
       = Some not_visible
   \<and> created (trace (snd (run no_push_option_env demo_worker initial_state))) = [alice, bob]"
proof -
  have 1: "\<not> debug_mode demo_worker"
    by (simp add: demo_worker_def)
  have 2: "setup_succeeds no_push_option_env demo_worker"
    by (simp add: setup_succeeds_def launch_actions_def login_actions_def settle_actions_def
        no_push_option_env_def push_option_locator_def)
  have 3: "provisioning_succeeds no_push_option_env demo_worker"
    by (simp add: provisioning_succeeds_def provisioning_actions_def no_push_option_env_def
        push_option_locator_def demo_worker_def)
  have 4: "never_stopped no_push_option_env"
    by (simp add: never_stopped_def no_push_option_env_def)
  have 5: "responds no_push_option_env 12 (Expect_visible push_option_locator 30000)
       = Some not_visible"
    by (simp add: no_push_option_env_def)
  from all_records_created_in_order[OF 1 2 3 4]
  have "created (trace (snd (run no_push_option_env demo_worker initial_state))) = [alice, bob]"
    by (simp add: demo_worker_def)
  with 1 2 3 4 5 show ?thesis by (intro conjI)
qed

section \<open>Debug mode\<close>

lemma lvc_loop_debug:
  assumes "debug_mode w" "lvc_loop env w us s = (fl, s')"
  shows "\<exists>evs. trace s' = trace s @ evs \<and> prefix (created evs) (take 1 us)"
proof (cases us)
  case Nil
  with assms show ?thesis by simp
next
  case (Cons u us')
  obtain r s1 where r: "read_is_running env s = (r, s1)" by (cases "read_is_running env s")
  from read_is_running_events[OF r] obtain evs1 where
    1: "trace s1 = trace s @ evs1" "list_all setup_event evs1"
    by blast
  obtain c s2 where c: "create_standard_user env (gtp_url w) u (user_password w) s1 = (c, s2)"
    by (cases "create_standard_user env (gtp_url w) u (user_password w) s1")
  from create_shape[OF c] obtain evs2 where
    2: "trace s2 = trace s1 @ Called (Create u) # evs2" "list_all setup_event evs2"
    by blast
  show ?thesis
  proof (cases r)
    case False
    with assms r Cons 1 show ?thesis
      by (intro exI[of _ evs1]) (auto simp: created_setup)
  next
    case True
    show ?thesis
    proof (cases c)
      case (Raised e)
      with True assms r c Cons 1 2 show ?thesis
        by (intro exI[of _ "evs1 @ Called (Create u) # evs2"]) (auto simp: created_setup)
    next
      case Normal
      with True assms r c Cons 1 2 show ?thesis
        by (intro exI[of _ "evs1 @ Called (Create u) # evs2 @
               [Progress ''--- DEBUG MODE: Halting after first LVC user. ---'']"])
           (auto simp: created_setup log_def)
    qed
  qed
qed

lemma run_body_debug:
  assumes "debug_mode w" "run_body env w s = (fl, s')"
  shows "\<exists>evs. trace s' = trace s @ evs \<and> prefix (created evs) (take 1 (lvc_users w))"
proof -
  let ?tail = "[lvc_loop env w (lvc_users w), standard_phase env w, report_complete env]"
  from assms(2) have "parts (setup_parts env w @ ?tail) s = (fl, s')"
    by (simp add: run_body_split)
  from parts_split[OF this] show ?thesis
  proof
    assume "parts (setup_parts env w) s = (fl, s') \<and> fl \<noteq> Go_on"
    then have "parts (setup_parts env w) s = (fl, s')" ..
    from yieldsD[OF yields_setup_parts this] obtain evs where
      "trace s' = trace s @ evs" "list_all setup_event evs"
      by blast
    then show ?thesis
      by (intro exI[of _ evs]) (simp add: created_setup)
  next
    assume "\<exists>s1. parts (setup_parts env w) s = (Go_on, s1) \<and> parts ?tail s1 = (fl, s')"
    then obtain s1 where s1: "parts (setup_parts env w) s = (Go_on, s1)"
      and t: "parts ?tail s1 = (fl, s')"
      by blast
    from yieldsD[OF yields_setup_parts s1] obtain evs1 where
      1: "trace s1 = trace s @ evs1" "list_all setup_event evs1"
      by blast
    obtain fl2 s2 where l: "lvc_loop env w (lvc_users w) s1 = (fl2, s2)"
      by (cases "lvc_loop env w (lvc_users w) s1")
    from lvc_loop_debug[OF assms(1) l] obtain evs2 where
      2: "trace s2 = trace s1 @ evs2" "prefix (created evs2) (take 1 (lvc_users w))"
      by blast
    obtain fl3 s3 where rc: "report_complete env s2 = (fl3, s3)"
      by (cases "report_complete env s2")
    from yieldsD[OF yields_report_complete rc] obtain evs3 where
      3: "trace s3 = trace s2 @ evs3" "list_all setup_event evs3"
      by blast
    show ?thesis
    proof (cases "fl2 = Go_on")
      case True
      have "standard_phase env w s2 = (Go_on, s2)"
        using assms(1) by (simp add: standard_phase_def)
      with True t l rc have "s' = s3"
        by (cases fl3) simp_all
      with 1 2 3 show ?thesis
        by (intro exI[of _ "evs1 @ evs2 @ evs3"]) (simp add: created_setup)
    next
      case False
      with t l have "s' = s2"
        by (cases fl2) auto
      with 1 2 show ?thesis
        by (intro exI[of _ "evs1 @ evs2"]) (simp add: created_setup)
    qed
  qed
qed

text \<open>
  Claim C2. In debug mode, whatever the browser answers and whenever the operator
  cancels, the records for which \<^verbatim>\<open>create_standard_user\<close> is entered are a prefix of the
  first LVC record alone: at most one account-creation sequence, for the first LVC record
  if there is one, none if \<^verbatim>\<open>lvc_users\<close> is empty. The standard phase is skipped as a
  whole: it reads no flag and emits nothing.
\<close>

theorem debug_mode_creates_at_most_first_lvc_user:
  assumes "debug_mode w"
  shows "prefix (created (trace (snd (run env w initial_state)))) (take 1 (lvc_users w))
       \<and> standard_phase env w s = (Go_on, s)"
proof -
  from created_run[of env w] obtain fl s1 where
    b: "run_body env w (initial_state\<lparr>driver := True\<rparr>) = (fl, s1)"
    and c: "created (trace (snd (run env w initial_state))) = created (trace s1)"
    by blast
  from run_body_debug[OF assms b] c have
    "prefix (created (trace (snd (run env w initial_state)))) (take 1 (lvc_users w))"
    by (auto simp: initial_state_def)
  with assms show ?thesis by (simp add: standard_phase_def)
qed

text \<open>The same worker with the debug box ticked.\<close>

theorem debug_mode_creates_at_most_first_lvc_user_witness:
  "debug_mode (demo_worker\<lparr>debug_mode := True\<rparr>)
   \<and> prefix (created (trace (snd (run calm_env (demo_worker\<lparr>debug_mode := True\<rparr>) initial_state)))) [alice]"
  using debug_mode_creates_at_most_first_lvc_user[of "demo_worker\<lparr>debug_mode := True\<rparr>" calm_env]
  by (simp add: demo_worker_def)

section \<open>Cancellation\<close>

lemma respects_stopI:
  assumes "\<And>s fl s'. is_running s \<Longrightarrow> p s = (fl, s') \<Longrightarrow>
        \<exists>evs. trace s' = trace s @ evs \<and>
           (if is_running s' then Called Stop \<notin> set evs
            else (\<forall>e. fl \<noteq> Raise e) \<and>
                 (\<exists>pre q. evs = pre @ q \<and> Called Stop \<notin> set pre \<and> list_all quiet_event q))"
  shows "respects_stop p"
  using assms unfolding respects_stop_def by blast

lemma respects_stopD:
  assumes "respects_stop p" "is_running s" "p s = (fl, s')"
  obtains evs where "trace s' = trace s @ evs" "is_running s'" "Called Stop \<notin> set evs"
  | pre q where "trace s' = trace s @ pre @ q" "\<not> is_running s'" "\<forall>e. fl \<noteq> Raise e"
      "Called Stop \<notin> set pre" "list_all quiet_event q"
proof -
  from assms(1)[unfolded respects_stop_def, rule_format, OF assms(2,3)]
  obtain evs where e: "trace s' = trace s @ evs"
    "if is_running s' then Called Stop \<notin> set evs
     else (\<forall>e. fl \<noteq> Raise e) \<and>
          (\<exists>pre q. evs = pre @ q \<and> Called Stop \<notin> set pre \<and> list_all quiet_event q)"
    by (elim exE conjE)
  show ?thesis
  proof (cases "is_running s'")
    case True
    with e that(1) show ?thesis by simp
  next
    case False
    with e obtain pre q where "evs = pre @ q" "Called Stop \<notin> set pre" "list_all quiet_event q"
      "\<forall>e. fl \<noteq> Raise e"
      by auto
    with e(1) False that(2) show ?thesis by simp
  qed
qed

lemma quiet_when_haltedI:
  assumes "\<And>s fl s'. \<not> is_running s \<Longrightarrow> p s = (fl, s') \<Longrightarrow>
        \<not> is_running s' \<and> (\<forall>e. fl \<noteq> Raise e) \<and>
        (\<exists>evs. trace s' = trace s @ evs \<and> list_all quiet_event evs)"
  shows "quiet_when_halted p"
  using assms unfolding quiet_when_halted_def by blast

lemma quiet_when_haltedD:
  assumes "quiet_when_halted p" "\<not> is_running s" "p s = (fl, s')"
  obtains evs where "trace s' = trace s @ evs" "list_all quiet_event evs" "\<not> is_running s'"
    "\<forall>e. fl \<noteq> Raise e"
  using assms(1)[unfolded quiet_when_halted_def, rule_format, OF assms(2,3)]
  by (elim exE conjE)

text \<open>What one read of the flag can be, by the flag before it.\<close>

lemma read_running:
  assumes "read_is_running env s = (r, s')" "is_running s"
  shows "(r \<and> is_running s' \<and> trace s' = trace s)
       \<or> (\<not> r \<and> \<not> is_running s'
           \<and> trace s' = trace s @ [Called Stop, Progress ''Stopping process...''])"
  using read_is_running_cases[OF assms(1)] assms(2) by auto

lemma read_halted:
  assumes "read_is_running env s = (r, s')" "\<not> is_running s"
  obtains evs where "\<not> r" "\<not> is_running s'" "trace s' = trace s @ evs"
    "list_all quiet_event evs"
proof -
  from read_is_running_cases[OF assms(1)] assms(2)
  have n: "\<not> r" "\<not> is_running s'"
    and "trace s' = trace s @ []
      \<or> trace s' = trace s @ [Called Stop, Progress ''Stopping process...'']"
    by auto
  from this(3) show ?thesis
  proof
    assume "trace s' = trace s @ []"
    with n that[of "[]"] show ?thesis by simp
  next
    assume "trace s' = trace s @ [Called Stop, Progress ''Stopping process...'']"
    with n that[of "[Called Stop, Progress ''Stopping process...'']"] show ?thesis by simp
  qed
qed

subsection \<open>The driver's methods never call \<open>stop\<close>\<close>

lemma launch_no_stop: "emits (\<lambda>ev. ev \<noteq> Called Stop) (launch env)"
  unfolding launch_def
  by (intro emits_seq) (simp add: emits_progress emits_enter emits_act emits_assign)

lemma settle_no_stop: "emits (\<lambda>ev. ev \<noteq> Called Stop) (wait_for_page_to_settle env)"
  unfolding wait_for_page_to_settle_def
  by (intro emits_seq) (simp add: emits_progress emits_enter emits_act)

lemma mfa_selection_no_stop: "emits (\<lambda>ev. ev \<noteq> Called Stop) (mfa_selection env)"
  unfolding mfa_selection_def
  by (intro emits_try_except emits_seq)
     (simp_all add: mfa_selection_steps_def emits_progress emits_act)

lemma login_no_stop: "emits (\<lambda>ev. ev \<noteq> Called Stop) (login env url em pw)"
  unfolding login_def
  apply (intro emits_seq)
  apply (simp add: emits_enter)
  apply (intro emits_if emits_raise emits_seq)
  apply (simp add: credential_steps_def approval_steps_def emits_progress emits_act
      mfa_selection_no_stop)
  done

lemma create_no_stop: "emits (\<lambda>ev. ev \<noteq> Called Stop) (create_standard_user env url u pw)"
  unfolding create_standard_user_def
  apply (intro emits_seq)
  apply (simp add: emits_enter)
  apply (intro emits_if emits_raise emits_seq)
  apply (simp add: create_steps_def emits_progress emits_act settle_no_stop)
  done

lemma no_stop_set: "list_all (\<lambda>ev. ev \<noteq> Called Stop) evs \<longleftrightarrow> Called Stop \<notin> set evs"
  by (induction evs) auto

subsection \<open>The parts of the body\<close>

lemma respects_stop_do_step:
  assumes "emits (\<lambda>ev. ev \<noteq> Called Stop) m"
  shows "respects_stop (do_step m)" and "alert (do_step m)"
proof -
  have *: "\<exists>evs. trace s' = trace s @ evs \<and> Called Stop \<notin> set evs \<and> is_running s'"
    if a: "is_running s" and b: "do_step m s = (fl, s')" for s fl s'
  proof -
    obtain r where "m s = (r, s')"
      using b by (cases "m s") (auto simp: do_step_def split: outcome.splits)
    from emitsD[OF assms this] obtain evs where
      "trace s' = trace s @ evs" "list_all (\<lambda>ev. ev \<noteq> Called Stop) evs"
      "is_running s' = is_running s"
      by blast
    with a show ?thesis by (intro exI[of _ evs]) (simp add: no_stop_set)
  qed
  show "respects_stop (do_step m)"
  proof (rule respects_stopI)
    fix s fl s' assume "is_running s" "do_step m s = (fl, s')"
    from *[OF this] obtain evs where
      "trace s' = trace s @ evs" "Called Stop \<notin> set evs" "is_running s'"
      by blast
    then show "\<exists>evs. trace s' = trace s @ evs \<and>
           (if is_running s' then Called Stop \<notin> set evs
            else (\<forall>e. fl \<noteq> Raise e) \<and>
                 (\<exists>pre q. evs = pre @ q \<and> Called Stop \<notin> set pre \<and> list_all quiet_event q))"
      by (intro exI[of _ evs]) simp
  qed
  show "alert (do_step m)"
    unfolding alert_def using * by blast
qed

lemma quiet_do_step_progress: "quiet_when_halted (do_step (progress_callback msg))"
  by (rule quiet_when_haltedI) (auto simp: do_step_progress log_def)

lemma respects_stop_skip: "respects_stop (\<lambda>s. (Go_on, s))" "alert (\<lambda>s. (Go_on, s))"
  "quiet_when_halted (\<lambda>s. (Go_on, s))"
  by (auto simp: respects_stop_def alert_def quiet_when_halted_def)

lemma respects_stop_return_if_stopped:
  "respects_stop (return_if_stopped env)" "alert (return_if_stopped env)"
proof -
  show "respects_stop (return_if_stopped env)"
  proof (rule respects_stopI)
    fix s fl s' assume s: "is_running s" and p: "return_if_stopped env s = (fl, s')"
    obtain r s1 where r: "read_is_running env s = (r, s1)" by (cases "read_is_running env s")
    with p have eq: "s' = s1" "fl = (if r then Go_on else Return)"
      by (auto simp: return_if_stopped_def split: if_splits)
    from read_running[OF r s] show "\<exists>evs. trace s' = trace s @ evs \<and>
           (if is_running s' then Called Stop \<notin> set evs
            else (\<forall>e. fl \<noteq> Raise e) \<and>
                 (\<exists>pre q. evs = pre @ q \<and> Called Stop \<notin> set pre \<and> list_all quiet_event q))"
    proof
      assume "r \<and> is_running s1 \<and> trace s1 = trace s"
      with eq show ?thesis by simp
    next
      assume a: "\<not> r \<and> \<not> is_running s1
           \<and> trace s1 = trace s @ [Called Stop, Progress ''Stopping process...'']"
      have "\<exists>pre q. [Called Stop, Progress ''Stopping process...''] = pre @ q
          \<and> Called Stop \<notin> set pre \<and> list_all quiet_event q"
        by (intro exI[of _ "[]"] exI[of _ "[Called Stop, Progress ''Stopping process...'']"])
           simp
      with a eq show ?thesis
        by (intro exI[of _ "[Called Stop, Progress ''Stopping process...'']"]) simp
    qed
  qed
  show "alert (return_if_stopped env)"
    unfolding alert_def
  proof (intro allI impI)
    fix s s' assume s: "is_running s" and p: "return_if_stopped env s = (Go_on, s')"
    obtain r s1 where r: "read_is_running env s = (r, s1)" by (cases "read_is_running env s")
    with p have "s' = s1" "r"
      by (auto simp: return_if_stopped_def split: if_splits)
    with read_running[OF r s] show "is_running s'" by auto
  qed
qed

lemma quiet_return_if_stopped: "quiet_when_halted (return_if_stopped env)"
proof (rule quiet_when_haltedI)
  fix s fl s' assume s: "\<not> is_running s" and p: "return_if_stopped env s = (fl, s')"
  obtain r s1 where r: "read_is_running env s = (r, s1)" by (cases "read_is_running env s")
  from read_halted[OF r s] obtain evs where
    "\<not> r" "\<not> is_running s1" "trace s1 = trace s @ evs" "list_all quiet_event evs"
    by blast
  with p r show "\<not> is_running s' \<and> (\<forall>e. fl \<noteq> Raise e) \<and>
        (\<exists>evs. trace s' = trace s @ evs \<and> list_all quiet_event evs)"
    by (auto simp: return_if_stopped_def)
qed

subsection \<open>Composition\<close>

text \<open>A stop-free stretch in front of a part that respects the stop.\<close>

lemma respects_after_stop_free:
  assumes r: "respects_stop p" and s1: "is_running s1" "trace s1 = trace s @ evs1"
    "Called Stop \<notin> set evs1" and p: "p s1 = (fl, s')"
  shows "\<exists>evs. trace s' = trace s @ evs \<and>
           (if is_running s' then Called Stop \<notin> set evs
            else (\<forall>e. fl \<noteq> Raise e) \<and>
                 (\<exists>pre q. evs = pre @ q \<and> Called Stop \<notin> set pre \<and> list_all quiet_event q))"
  using r s1(1) p
proof (rule respects_stopD)
  fix evs assume "trace s' = trace s1 @ evs" "is_running s'" "Called Stop \<notin> set evs"
  with s1 show ?thesis by (intro exI[of _ "evs1 @ evs"]) simp
next
  fix pre q assume a: "trace s' = trace s1 @ pre @ q" "\<not> is_running s'" "\<forall>e. fl \<noteq> Raise e"
    "Called Stop \<notin> set pre" "list_all quiet_event q"
  with s1 have "\<exists>pre' q'. evs1 @ pre @ q = pre' @ q' \<and> Called Stop \<notin> set pre'
      \<and> list_all quiet_event q'"
    by (intro exI[of _ "evs1 @ pre"] exI[of _ q]) simp
  with a s1 show ?thesis by (intro exI[of _ "evs1 @ pre @ q"]) simp
qed

text \<open>A part that has halted, followed by a part that is quiet when halted.\<close>

lemma quiet_after_halt:
  assumes q: "quiet_when_halted p" and s1: "\<not> is_running s1" "trace s1 = trace s @ pre @ q1"
    "Called Stop \<notin> set pre" "list_all quiet_event q1" and p: "p s1 = (fl, s')"
  shows "\<not> is_running s' \<and> (\<forall>e. fl \<noteq> Raise e) \<and>
         (\<exists>pre q. trace s' = trace s @ pre @ q \<and> Called Stop \<notin> set pre
            \<and> list_all quiet_event q)"
proof -
  from quiet_when_haltedD[OF q s1(1) p] obtain evs where
    e: "trace s' = trace s1 @ evs" "list_all quiet_event evs" "\<not> is_running s'"
       "\<forall>e. fl \<noteq> Raise e"
    by blast
  with s1 have "trace s' = trace s @ pre @ (q1 @ evs) \<and> Called Stop \<notin> set pre
      \<and> list_all quiet_event (q1 @ evs)"
    by simp
  with e show ?thesis by blast
qed

lemma respects_stop_Cons_alert:
  assumes p: "respects_stop p" "alert p" and ps: "respects_stop (parts ps)"
  shows "respects_stop (parts (p # ps))"
proof (rule respects_stopI)
  fix s fl s' assume s: "is_running s" and r: "parts (p # ps) s = (fl, s')"
  obtain fl1 s1 where p1: "p s = (fl1, s1)" by (cases "p s")
  let ?goal = "\<exists>evs. trace s' = trace s @ evs \<and>
           (if is_running s' then Called Stop \<notin> set evs
            else (\<forall>e. fl \<noteq> Raise e) \<and>
                 (\<exists>pre q. evs = pre @ q \<and> Called Stop \<notin> set pre \<and> list_all quiet_event q))"
  show ?goal
  proof (cases "fl1 = Go_on")
    case False
    with r p1 have "fl = fl1" "s' = s1" by (cases fl1; simp)+
    with p(1) s p1 show ?thesis unfolding respects_stop_def by blast
  next
    case True
    with p(2) s p1 have run1: "is_running s1" unfolding alert_def by blast
    from True r p1 have rest: "parts ps s1 = (fl, s')" by simp
    from p(1) s p1 show ?thesis
    proof (rule respects_stopD)
      fix evs assume "trace s1 = trace s @ evs" "is_running s1" "Called Stop \<notin> set evs"
      from respects_after_stop_free[OF ps this(2,1,3) rest] show ?thesis .
    next
      fix pre q assume "\<not> is_running s1"
      with run1 show ?thesis by simp
    qed
  qed
qed

lemma respects_stop_Cons_quiet:
  assumes p: "respects_stop p" and ps: "respects_stop (parts ps)" "quiet_when_halted (parts ps)"
  shows "respects_stop (parts (p # ps))"
proof (rule respects_stopI)
  fix s fl s' assume s: "is_running s" and r: "parts (p # ps) s = (fl, s')"
  obtain fl1 s1 where p1: "p s = (fl1, s1)" by (cases "p s")
  let ?goal = "\<exists>evs. trace s' = trace s @ evs \<and>
           (if is_running s' then Called Stop \<notin> set evs
            else (\<forall>e. fl \<noteq> Raise e) \<and>
                 (\<exists>pre q. evs = pre @ q \<and> Called Stop \<notin> set pre \<and> list_all quiet_event q))"
  show ?goal
  proof (cases "fl1 = Go_on")
    case False
    with r p1 have "fl = fl1" "s' = s1" by (cases fl1; simp)+
    with p s p1 show ?thesis unfolding respects_stop_def by blast
  next
    case True
    from True r p1 have rest: "parts ps s1 = (fl, s')" by simp
    from p s p1 show ?thesis
    proof (rule respects_stopD)
      fix evs assume "trace s1 = trace s @ evs" "is_running s1" "Called Stop \<notin> set evs"
      from respects_after_stop_free[OF ps(1) this(2,1,3) rest] show ?thesis .
    next
      fix pre q assume a: "trace s1 = trace s @ pre @ q" "\<not> is_running s1"
        "Called Stop \<notin> set pre" "list_all quiet_event q"
      from quiet_after_halt[OF ps(2) a(2,1,3,4) rest] obtain pre' q' where
        "\<not> is_running s'" "\<forall>e. fl \<noteq> Raise e" "trace s' = trace s @ pre' @ q'"
        "Called Stop \<notin> set pre'" "list_all quiet_event q'"
        by blast
      then show ?thesis by (intro exI[of _ "pre' @ q'"]) auto
    qed
  qed
qed

lemma quiet_when_halted_parts:
  "list_all quiet_when_halted ps \<Longrightarrow> quiet_when_halted (parts ps)"
proof (induction ps)
  case Nil
  show ?case by (rule quiet_when_haltedI) simp
next
  case (Cons p ps)
  then have p: "quiet_when_halted p" and ps: "quiet_when_halted (parts ps)" by simp_all
  show ?case
  proof (rule quiet_when_haltedI)
    fix s fl s' assume s: "\<not> is_running s" and r: "parts (p # ps) s = (fl, s')"
    obtain fl1 s1 where p1: "p s = (fl1, s1)" by (cases "p s")
    from quiet_when_haltedD[OF p s p1] obtain evs1 where
      1: "trace s1 = trace s @ evs1" "list_all quiet_event evs1" "\<not> is_running s1"
         "\<forall>e. fl1 \<noteq> Raise e"
      by blast
    show "\<not> is_running s' \<and> (\<forall>e. fl \<noteq> Raise e) \<and>
        (\<exists>evs. trace s' = trace s @ evs \<and> list_all quiet_event evs)"
    proof (cases "fl1 = Go_on")
      case False
      with r p1 have "fl = fl1" "s' = s1" by (cases fl1; simp)+
      with 1 show ?thesis by blast
    next
      case True
      with r p1 have rest: "parts ps s1 = (fl, s')" by simp
      from quiet_when_haltedD[OF ps 1(3) rest] obtain evs2 where
        2: "trace s' = trace s1 @ evs2" "list_all quiet_event evs2" "\<not> is_running s'"
         "\<forall>e. fl \<noteq> Raise e"
        by blast
      with 1 have "trace s' = trace s @ (evs1 @ evs2) \<and> list_all quiet_event (evs1 @ evs2)"
        by simp
      with 2 show ?thesis by blast
    qed
  qed
qed

lemma respects_stop_Nil: "respects_stop (parts [])"
  by (rule respects_stopI) simp

lemma respects_stop_alert_parts:
  "list_all (\<lambda>p. respects_stop p \<and> alert p) ps \<Longrightarrow> respects_stop (parts qs)
     \<Longrightarrow> respects_stop (parts (ps @ qs))"
  by (induction ps) (auto intro: respects_stop_Cons_alert)

subsection \<open>The loops and the phases after them\<close>

lemma quiet_lvc_loop: "quiet_when_halted (lvc_loop env w us)"
proof (rule quiet_when_haltedI)
  fix s fl s' assume s: "\<not> is_running s" and r: "lvc_loop env w us s = (fl, s')"
  show "\<not> is_running s' \<and> (\<forall>e. fl \<noteq> Raise e) \<and>
        (\<exists>evs. trace s' = trace s @ evs \<and> list_all quiet_event evs)"
  proof (cases us)
    case Nil
    with r s show ?thesis by simp
  next
    case (Cons u us')
    obtain b s1 where b: "read_is_running env s = (b, s1)" by (cases "read_is_running env s")
    from read_halted[OF b s] obtain evs where
      "\<not> b" "\<not> is_running s1" "trace s1 = trace s @ evs" "list_all quiet_event evs"
      by blast
    with r b Cons show ?thesis by auto
  qed
qed

lemma quiet_standard_loop: "quiet_when_halted (standard_loop env w us)"
proof (rule quiet_when_haltedI)
  fix s fl s' assume s: "\<not> is_running s" and r: "standard_loop env w us s = (fl, s')"
  show "\<not> is_running s' \<and> (\<forall>e. fl \<noteq> Raise e) \<and>
        (\<exists>evs. trace s' = trace s @ evs \<and> list_all quiet_event evs)"
  proof (cases us)
    case Nil
    with r s show ?thesis by simp
  next
    case (Cons u us')
    obtain b s1 where b: "read_is_running env s = (b, s1)" by (cases "read_is_running env s")
    from read_halted[OF b s] obtain evs where
      "\<not> b" "\<not> is_running s1" "trace s1 = trace s @ evs" "list_all quiet_event evs"
      by blast
    with r b Cons show ?thesis by auto
  qed
qed

text \<open>
  One turn of a loop started with the flag up: the \<^verbatim>\<open>stop()\<close> is seen and the loop
  ends, or the record is created without any \<^verbatim>\<open>stop()\<close> in between.
\<close>

lemma turn_running:
  assumes "is_running s" "read_is_running env s = (b, s1)"
    "create_standard_user env url u pw s1 = (c, s2)"
  shows "(\<not> b \<and> \<not> is_running s1
           \<and> trace s1 = trace s @ [Called Stop, Progress ''Stopping process...''])
       \<or> (b \<and> is_running s2 \<and> (\<exists>evs. trace s2 = trace s @ evs \<and> Called Stop \<notin> set evs))"
  using read_running[OF assms(2,1)]
proof
  assume a: "b \<and> is_running s1 \<and> trace s1 = trace s"
  from emitsD[OF create_no_stop assms(3)] obtain evs where
    "trace s2 = trace s1 @ evs" "list_all (\<lambda>ev. ev \<noteq> Called Stop) evs"
    "is_running s2 = is_running s1"
    by blast
  with a have "b \<and> is_running s2 \<and> trace s2 = trace s @ evs \<and> Called Stop \<notin> set evs"
    by (simp add: no_stop_set)
  then show ?thesis by blast
qed simp

lemma halted_shape:
  "\<exists>pre q. [Called Stop, Progress ''Stopping process...''] = pre @ q
      \<and> Called Stop \<notin> set pre \<and> list_all quiet_event q"
  by (intro exI[of _ "[]"] exI[of _ "[Called Stop, Progress ''Stopping process...'']"]) simp

lemma respects_stop_lvc_loop: "respects_stop (lvc_loop env w us)"
proof (induction us)
  case Nil
  show ?case by (rule respects_stopI) simp
next
  case (Cons u us)
  show ?case
  proof (rule respects_stopI)
    fix s fl s' assume s: "is_running s" and r: "lvc_loop env w (u # us) s = (fl, s')"
    obtain b s1 where b: "read_is_running env s = (b, s1)" by (cases "read_is_running env s")
    obtain c s2 where c: "create_standard_user env (gtp_url w) u (user_password w) s1 = (c, s2)"
      by (cases "create_standard_user env (gtp_url w) u (user_password w) s1")
    let ?goal = "\<exists>evs. trace s' = trace s @ evs \<and>
           (if is_running s' then Called Stop \<notin> set evs
            else (\<forall>e. fl \<noteq> Raise e) \<and>
                 (\<exists>pre q. evs = pre @ q \<and> Called Stop \<notin> set pre \<and> list_all quiet_event q))"
    from turn_running[OF s b c] show ?goal
    proof
      assume a: "\<not> b \<and> \<not> is_running s1
           \<and> trace s1 = trace s @ [Called Stop, Progress ''Stopping process...'']"
      with r b have "fl = Go_on" "s' = s1" by simp_all
      with a halted_shape show ?goal
        by (intro exI[of _ "[Called Stop, Progress ''Stopping process...'']"]) simp
    next
      assume "b \<and> is_running s2 \<and> (\<exists>evs. trace s2 = trace s @ evs \<and> Called Stop \<notin> set evs)"
      then obtain evs where a: "b" "is_running s2" "trace s2 = trace s @ evs"
        "Called Stop \<notin> set evs"
        by blast
      show ?goal
      proof (cases c)
        case (Raised e)
        with r b c a have "s' = s2" by simp
        with a show ?goal by (intro exI[of _ evs]) simp
      next
        case Normal
        show ?goal
        proof (cases "debug_mode w")
          case True
          with Normal r b c a have
            "s' = log (Progress ''--- DEBUG MODE: Halting after first LVC user. ---'') s2"
            by simp
          with a show ?goal
            by (intro exI[of _ "evs @
                  [Progress ''--- DEBUG MODE: Halting after first LVC user. ---'']"])
               (simp add: log_def)
        next
          case False
          with Normal r b c a have "lvc_loop env w us s2 = (fl, s')" by simp
          from respects_after_stop_free[OF Cons a(2,3,4) this] show ?goal .
        qed
      qed
    qed
  qed
qed

lemma respects_stop_standard_loop: "respects_stop (standard_loop env w us)"
proof (induction us)
  case Nil
  show ?case by (rule respects_stopI) simp
next
  case (Cons u us)
  show ?case
  proof (rule respects_stopI)
    fix s fl s' assume s: "is_running s" and r: "standard_loop env w (u # us) s = (fl, s')"
    obtain b s1 where b: "read_is_running env s = (b, s1)" by (cases "read_is_running env s")
    obtain c s2 where c: "create_standard_user env (gtp_url w) u (user_password w) s1 = (c, s2)"
      by (cases "create_standard_user env (gtp_url w) u (user_password w) s1")
    let ?goal = "\<exists>evs. trace s' = trace s @ evs \<and>
           (if is_running s' then Called Stop \<notin> set evs
            else (\<forall>e. fl \<noteq> Raise e) \<and>
                 (\<exists>pre q. evs = pre @ q \<and> Called Stop \<notin> set pre \<and> list_all quiet_event q))"
    from turn_running[OF s b c] show ?goal
    proof
      assume a: "\<not> b \<and> \<not> is_running s1
           \<and> trace s1 = trace s @ [Called Stop, Progress ''Stopping process...'']"
      with r b have "fl = Go_on" "s' = s1" by simp_all
      with a halted_shape show ?goal
        by (intro exI[of _ "[Called Stop, Progress ''Stopping process...'']"]) simp
    next
      assume "b \<and> is_running s2 \<and> (\<exists>evs. trace s2 = trace s @ evs \<and> Called Stop \<notin> set evs)"
      then obtain evs where a: "b" "is_running s2" "trace s2 = trace s @ evs"
        "Called Stop \<notin> set evs"
        by blast
      show ?goal
      proof (cases c)
        case (Raised e)
        with r b c a have "s' = s2" by simp
        with a show ?goal by (intro exI[of _ evs]) simp
      next
        case Normal
        with r b c a have "standard_loop env w us s2 = (fl, s')" by simp
        from respects_after_stop_free[OF Cons a(2,3,4) this] show ?goal .
      qed
    qed
  qed
qed

lemma respects_stop_progress:
  "respects_stop (do_step (progress_callback msg))" "alert (do_step (progress_callback msg))"
  by (rule respects_stop_do_step; rule emits_progress; simp)+

lemma standard_phase_stop:
  "respects_stop (standard_phase env w)" "quiet_when_halted (standard_phase env w)"
proof -
  let ?ps = "[return_if_stopped env,
              do_step (progress_callback (CHR 0x0A # ''Step 3: Processing Standard users...'')),
              standard_loop env w (standard_users w)]"
  have 1: "respects_stop (parts [standard_loop env w (standard_users w)])"
    by (rule respects_stop_Cons_quiet)
       (simp_all add: respects_stop_standard_loop respects_stop_Nil quiet_when_halted_parts)
  have "respects_stop (parts ([return_if_stopped env,
      do_step (progress_callback (CHR 0x0A # ''Step 3: Processing Standard users...''))]
      @ [standard_loop env w (standard_users w)]))"
    by (rule respects_stop_alert_parts)
       (simp_all add: respects_stop_return_if_stopped respects_stop_progress 1)
  then have r: "respects_stop (parts ?ps)" by simp
  have q: "quiet_when_halted (parts ?ps)"
    by (rule quiet_when_halted_parts)
       (simp add: quiet_return_if_stopped quiet_do_step_progress quiet_standard_loop)
  show "respects_stop (standard_phase env w)"
  proof (cases "debug_mode w")
    case True
    then have "standard_phase env w = (\<lambda>s. (Go_on, s))" by (auto simp: standard_phase_def)
    then show ?thesis by (simp add: respects_stop_skip)
  next
    case False
    then have "standard_phase env w = parts ?ps" by (auto simp: standard_phase_def)
    with r show ?thesis by simp
  qed
  show "quiet_when_halted (standard_phase env w)"
  proof (cases "debug_mode w")
    case True
    then have "standard_phase env w = (\<lambda>s. (Go_on, s))" by (auto simp: standard_phase_def)
    then show ?thesis by (simp add: respects_stop_skip)
  next
    case False
    then have "standard_phase env w = parts ?ps" by (auto simp: standard_phase_def)
    with q show ?thesis by simp
  qed
qed

lemma report_complete_stop:
  "respects_stop (report_complete env)" "quiet_when_halted (report_complete env)"
proof -
  show "respects_stop (report_complete env)"
  proof (rule respects_stopI)
    fix s fl s' assume s: "is_running s" and r: "report_complete env s = (fl, s')"
    obtain b s1 where b: "read_is_running env s = (b, s1)" by (cases "read_is_running env s")
    let ?goal = "\<exists>evs. trace s' = trace s @ evs \<and>
           (if is_running s' then Called Stop \<notin> set evs
            else (\<forall>e. fl \<noteq> Raise e) \<and>
                 (\<exists>pre q. evs = pre @ q \<and> Called Stop \<notin> set pre \<and> list_all quiet_event q))"
    from read_running[OF b s] show ?goal
    proof
      assume a: "b \<and> is_running s1 \<and> trace s1 = trace s"
      with r b have "s' = log (Progress (CHR 0x0A # ''Automation complete!'')) s1"
        by (simp add: report_complete_def do_step_progress)
      with a show ?goal
        by (intro exI[of _ "[Progress (CHR 0x0A # ''Automation complete!'')]"])
           (simp add: log_def)
    next
      assume a: "\<not> b \<and> \<not> is_running s1
           \<and> trace s1 = trace s @ [Called Stop, Progress ''Stopping process...'']"
      with r b have "fl = Go_on" "s' = s1" by (simp_all add: report_complete_def)
      with a halted_shape show ?goal
        by (intro exI[of _ "[Called Stop, Progress ''Stopping process...'']"]) simp
    qed
  qed
  show "quiet_when_halted (report_complete env)"
  proof (rule quiet_when_haltedI)
    fix s fl s' assume s: "\<not> is_running s" and r: "report_complete env s = (fl, s')"
    obtain b s1 where b: "read_is_running env s = (b, s1)" by (cases "read_is_running env s")
    from read_halted[OF b s] obtain evs where
      "\<not> b" "\<not> is_running s1" "trace s1 = trace s @ evs" "list_all quiet_event evs"
      by blast
    with r b show "\<not> is_running s' \<and> (\<forall>e. fl \<noteq> Raise e) \<and>
        (\<exists>evs. trace s' = trace s @ evs \<and> list_all quiet_event evs)"
      by (auto simp: report_complete_def)
  qed
qed

lemma respects_stop_if:
  "respects_stop a \<Longrightarrow> respects_stop b \<Longrightarrow> respects_stop (\<lambda>s. if c then a s else b s)"
  "alert a \<Longrightarrow> alert b \<Longrightarrow> alert (\<lambda>s. if c then a s else b s)"
  by (cases c; simp)+

lemma respects_stop_run_body: "respects_stop (run_body env w)"
proof -
  have 3: "respects_stop (parts [report_complete env])"
    by (rule respects_stop_Cons_quiet)
       (simp_all add: report_complete_stop respects_stop_Nil quiet_when_halted_parts)
  have 2: "respects_stop (parts [standard_phase env w, report_complete env])"
    by (rule respects_stop_Cons_quiet)
       (simp_all add: standard_phase_stop 3 quiet_when_halted_parts report_complete_stop)
  have 1: "respects_stop (parts [lvc_loop env w (lvc_users w), standard_phase env w,
      report_complete env])"
    by (rule respects_stop_Cons_quiet)
       (simp_all add: respects_stop_lvc_loop 2 quiet_when_halted_parts standard_phase_stop
          report_complete_stop)
  have "list_all (\<lambda>p. respects_stop p \<and> alert p) (setup_parts env w)"
    by (simp add: setup_parts_def respects_stop_progress respects_stop_return_if_stopped
        respects_stop_skip respects_stop_do_step[OF launch_no_stop]
        respects_stop_do_step[OF login_no_stop] respects_stop_do_step[OF settle_no_stop]
        respects_stop_if)
  from respects_stop_alert_parts[OF this 1] show ?thesis
    by (simp add: run_body_split)
qed

subsection \<open>Nothing but the teardown after a \<open>stop\<close>\<close>

lemma quiet_event_halt: "quiet_event ev \<Longrightarrow> halt_event ev"
  by (cases ev) auto

lemma teardown_event_halt: "teardown_event ev \<Longrightarrow> halt_event ev"
  by (cases ev) auto

text \<open>What comes after an element lies behind every stretch that is free of it.\<close>

lemma after_first_occurrence:
  assumes "xs @ rest = pre @ x # post" "x \<notin> set xs"
  shows "\<exists>zs. rest = zs @ x # post"
  using assms
proof (induction xs arbitrary: pre)
  case Nil
  then show ?case by auto
next
  case (Cons a xs)
  show ?case
  proof (cases pre)
    case Nil
    with Cons.prems show ?thesis by auto
  next
    case (Cons b pre')
    with Cons.prems have "xs @ rest = pre' @ x # post" "x \<notin> set xs" by auto
    then show ?thesis by (rule Cons.IH)
  qed
qed

lemma stop_not_reported [simp]: "Called Stop \<notin> set (reported fl)"
  by (cases fl) auto

lemma stop_not_teardown: "list_all teardown_event evs \<Longrightarrow> Called Stop \<notin> set evs"
  by (induction evs) auto

text \<open>
  Claim C7. Once the worker has seen a \<^verbatim>\<open>stop()\<close> at one of its reads of the flag (the
  reads before each phase and before each record), the rest of the trace holds nothing
  but progress lines, the teardown and the completion signal: no further call of
  \<^verbatim>\<open>create_standard_user\<close> or of any other phase, no further Playwright call of the body,
  and no error signal. A provisioning sequence itself neither reads nor changes the flag,
  so a \<^verbatim>\<open>stop()\<close> that arrives during a sequence is seen at the next boundary.
\<close>

theorem nothing_but_teardown_after_stop:
  assumes "trace (snd (run env w initial_state)) = pre @ Called Stop # post"
  shows "list_all halt_event post
       \<and> n_reads (snd (create_standard_user env url u pw s)) = n_reads s
       \<and> is_running (snd (create_standard_user env url u pw s)) = is_running s"
proof -
  have frame: "n_reads (snd (create_standard_user env url u pw s)) = n_reads s
       \<and> is_running (snd (create_standard_user env url u pw s)) = is_running s"
    using create_no_stop[of env url u pw] unfolding emits_def by blast
  have "list_all halt_event post"
  proof -
  obtain body fl tevs fin where
    t: "trace (snd (run env w initial_state)) = body @ reported fl @ Called Close # tevs @ fin"
    and c: "list_all teardown_event tevs"
    and f: "(fst (run env w initial_state) = Normal \<and> fin = [Automation_finished])
        \<or> ((\<exists>e. fst (run env w initial_state) = Raised e) \<and> fin = [])"
    and b: "\<exists>s1. run_body env w (initial_state\<lparr>driver := True\<rparr>) = (fl, s1) \<and> trace s1 = body"
    by (rule run_events)
  from b obtain s1 where
    b1: "run_body env w (initial_state\<lparr>driver := True\<rparr>) = (fl, s1)" and b2: "trace s1 = body"
    by blast
  have run0: "is_running (initial_state\<lparr>driver := True\<rparr>)"
    by (simp add: initial_state_def)
  have fin: "Called Stop \<notin> set fin" "list_all halt_event fin" using f by auto
  have tail: "list_all halt_event (Called Close # tevs @ fin)"
    using c fin by (auto intro: list_all_mono teardown_event_halt)
  from respects_stop_run_body run0 b1 show ?thesis
  proof (rule respects_stopD)
    fix evs assume "trace s1 = trace (initial_state\<lparr>driver := True\<rparr>) @ evs"
      "Called Stop \<notin> set evs"
    with b2 have "Called Stop \<notin> set body" by (simp add: initial_state_def)
    with t fin stop_not_teardown[OF c] have "Called Stop \<notin> set (trace (snd (run env w initial_state)))"
      by simp
    with assms show ?thesis by simp
  next
    fix p q assume a: "trace s1 = trace (initial_state\<lparr>driver := True\<rparr>) @ p @ q"
      "\<forall>e. fl \<noteq> Raise e" "Called Stop \<notin> set p" "list_all quiet_event q"
    from a(2) have "reported fl = []" by (cases fl) auto
    with a(1) b2 t have "trace (snd (run env w initial_state)) = p @ (q @ Called Close # tevs @ fin)"
      by (simp add: initial_state_def)
    with assms have "p @ (q @ Called Close # tevs @ fin) = pre @ Called Stop # post"
      by simp
    from after_first_occurrence[OF this a(3)] obtain zs where
      "q @ Called Close # tevs @ fin = zs @ Called Stop # post"
      by blast
    moreover have "list_all halt_event (q @ Called Close # tevs @ fin)"
      using a(4) tail by (auto intro: list_all_mono quiet_event_halt)
    ultimately show ?thesis by simp
  qed
  qed
  with frame show ?thesis by blast
qed

text \<open>
  The operator cancels while the first of two LVC records is being created: the second
  record is never entered, and after the \<^verbatim>\<open>stop()\<close> only the teardown follows.
\<close>

theorem nothing_but_teardown_after_stop_witness:
  "trace (snd (run cancelling_env two_lvc_worker initial_state))
     = takeWhile (\<lambda>ev. ev \<noteq> Called Stop) (trace (snd (run cancelling_env two_lvc_worker initial_state)))
       @ Called Stop #
       [Progress ''Stopping process...'', Called Close, Act Browser_close,
        Progress ''Browser closed.'', Act Playwright_stop, Automation_finished]
   \<and> list_all halt_event
       [Progress ''Stopping process...'', Called Close, Act Browser_close,
        Progress ''Browser closed.'', Act Playwright_stop, Automation_finished]
   \<and> created (trace (snd (run cancelling_env two_lvc_worker initial_state))) = [alice]"
proof -
  have t: "trace (snd (run cancelling_env two_lvc_worker initial_state))
     = takeWhile (\<lambda>ev. ev \<noteq> Called Stop) (trace (snd (run cancelling_env two_lvc_worker initial_state)))
       @ Called Stop #
       [Progress ''Stopping process...'', Called Close, Act Browser_close,
        Progress ''Browser closed.'', Act Playwright_stop, Automation_finished]"
    and c: "created (trace (snd (run cancelling_env two_lvc_worker initial_state))) = [alice]"
    by (simp_all add: run_eval cancelling_env_def two_lvc_worker_def demo_worker_def)
  from nothing_but_teardown_after_stop[OF t, THEN conjunct1] t c show ?thesis by simp
qed

section \<open>Login\<close>

lemma seq_Normal_append:
  "seq xs s = (Normal, s1) \<Longrightarrow> seq (xs @ ys) s = seq ys s1"
  by (simp add: seq_append)

text \<open>
  Claim C5. When the credential steps of a login have gone through and anything raises
  inside the MFA-selection block (the push option not visible within 30 s, the click
  failing, the confirmation not visible within 15 s, or any other exception), the block
  itself returns normally, the \<^verbatim>\<open>[INFO]\<close> line with the exception's text is logged, and
  the login goes on to the approval wait: the two waiting lines and the call of
  \<^verbatim>\<open>page.wait_for_url\<close> follow.
\<close>

theorem mfa_selection_failure_is_swallowed:
  assumes "page s"
    and "seq (credential_steps env url em pw) (log (Called Login) s) = (Normal, s1)"
    and "seq (mfa_selection_steps env) s1 = (Raised e, s2)"
  shows "mfa_selection env s1 = (Normal, log (Progress (mfa_info_message e)) s2)
       \<and> (\<exists>evs. trace (snd (login env url em pw s)) =
             trace s2 @ [Progress (mfa_info_message e),
                         Progress ''Waiting for Multi-Factor Authentication (MFA)...'',
                         Progress ''>>> Please approve the notification on your phone. <<<'',
                         Act (Wait_for_url_without ''okta.com'' 120000)] @ evs)"
proof -
  have m: "mfa_selection env s1 = (Normal, log (Progress (mfa_info_message e)) s2)"
    using assms(3) by (simp add: mfa_selection_def try_except_def progress_callback_def)
  have "login env url em pw s = seq (mfa_selection env # approval_steps env) s1"
    using assms(1,2) by (simp add: login_unfold seq_Normal_append)
  also have "\<dots> = seq (approval_steps env) (log (Progress (mfa_info_message e)) s2)"
    using m by simp
  finally have l: "login env url em pw s
      = seq (approval_steps env) (log (Progress (mfa_info_message e)) s2)" .
  have "\<exists>evs. trace (snd (seq (approval_steps env) (log (Progress (mfa_info_message e)) s2))) =
             trace s2 @ [Progress (mfa_info_message e),
                         Progress ''Waiting for Multi-Factor Authentication (MFA)...'',
                         Progress ''>>> Please approve the notification on your phone. <<<'',
                         Act (Wait_for_url_without ''okta.com'' 120000)] @ evs"
    by (cases "responds env (n_acts s2) (Wait_for_url_without ''okta.com'' 120000)")
       (simp_all add: approval_steps_def progress_callback_def act_def log_def)
  with m l show ?thesis by simp
qed

text \<open>The identity provider shows no selection screen; the login still succeeds.\<close>

theorem mfa_selection_failure_is_swallowed_witness:
  "page launched_state
   \<and> fst (seq (credential_steps no_push_option_env ''https://gtp'' ''me'' ''pw'')
            (log (Called Login) launched_state)) = Normal
   \<and> fst (seq (mfa_selection_steps no_push_option_env)
            (snd (seq (credential_steps no_push_option_env ''https://gtp'' ''me'' ''pw'')
                   (log (Called Login) launched_state)))) = Raised not_visible
   \<and> fst (mfa_selection no_push_option_env
            (snd (seq (credential_steps no_push_option_env ''https://gtp'' ''me'' ''pw'')
                   (log (Called Login) launched_state)))) = Normal
   \<and> fst (login no_push_option_env ''https://gtp'' ''me'' ''pw'' launched_state) = Normal"
proof -
  let ?s1 = "snd (seq (credential_steps no_push_option_env ''https://gtp'' ''me'' ''pw'')
                   (log (Called Login) launched_state))"
  let ?s2 = "snd (seq (mfa_selection_steps no_push_option_env) ?s1)"
  have p: "page launched_state"
    by (simp add: launched_state_def initial_state_def)
  have c: "seq (credential_steps no_push_option_env ''https://gtp'' ''me'' ''pw'')
            (log (Called Login) launched_state) = (Normal, ?s1)"
    by (simp add: credential_steps_def no_push_option_env_def push_option_locator_def
        progress_callback_def act_def log_def launched_state_def initial_state_def)
  have m: "seq (mfa_selection_steps no_push_option_env) ?s1 = (Raised not_visible, ?s2)"
    by (simp add: mfa_selection_steps_def credential_steps_def no_push_option_env_def
        progress_callback_def act_def log_def launched_state_def initial_state_def)
  have l: "fst (login no_push_option_env ''https://gtp'' ''me'' ''pw'' launched_state) = Normal"
    by (simp add: login_def mfa_selection_def try_except_def mfa_selection_steps_def
        approval_steps_def credential_steps_def no_push_option_env_def
        push_option_locator_def enter_def raise_def
        progress_callback_def act_def log_def launched_state_def initial_state_def)
  from mfa_selection_failure_is_swallowed[OF p c m]
  have mf: "fst (mfa_selection no_push_option_env ?s1) = Normal"
    by simp
  from c have c': "fst (seq (credential_steps no_push_option_env ''https://gtp'' ''me'' ''pw'')
            (log (Called Login) launched_state)) = Normal"
    by (metis fst_conv)
  from m have m': "fst (seq (mfa_selection_steps no_push_option_env) ?s1) = Raised not_visible"
    by (metis fst_conv)
  from p c' m' mf l show ?thesis
    by (intro conjI)
qed

text \<open>
  Claim C6 as stated fails. The error of an approval that never comes against the error
  of a login page that never loads: \<^verbatim>\<open>login\<close> hands on what Playwright raised, a \<^verbatim>\<open>TimeoutError\<close> in both runs, and
  the two results are the same value. Nothing marks the first as an MFA timeout.
\<close>

theorem approval_timeout_not_distinguished:
  "fst (login approval_timeout_env (GTP_VERSIONS GTP_640) ''me'' ''pw'' launched_state)
     = Raised timeout_error
   \<and> fst (login goto_timeout_env (GTP_VERSIONS GTP_640) ''me'' ''pw'' launched_state)
     = Raised timeout_error"
  by (simp add: login_def mfa_selection_def try_except_def mfa_selection_steps_def
        approval_steps_def credential_steps_def approval_timeout_env_def goto_timeout_env_def
        push_option_locator_def enter_def raise_def
        progress_callback_def act_def log_def launched_state_def initial_state_def)

lemma login_approval_timeout:
  assumes "page s"
    and "seq (credential_steps env url em pw) (log (Called Login) s) = (Normal, s1)"
    and "mfa_selection env s1 = (Normal, s2)"
    and "responds env (n_acts s2) (Wait_for_url_without ''okta.com'' 120000) = Some e"
  shows "fst (login env url em pw s) = Raised e"
proof -
  have "login env url em pw s = seq (mfa_selection env # approval_steps env) s1"
    using assms(1,2) by (simp add: login_unfold seq_Normal_append)
  also have "\<dots> = seq (approval_steps env) s2"
    using assms(3) by simp
  finally have "login env url em pw s = seq (approval_steps env) s2" .
  then show ?thesis
    using assms(4)
    by (simp add: approval_steps_def progress_callback_def act_def log_def)
qed

section \<open>The currency option\<close>

lemma py_split_not_empty: "py_split sep t \<noteq> []"
  by (induction t) auto

lemma hd_py_split: "hd (py_split sep t) = takeWhile (\<lambda>c. c \<noteq> sep) t"
  by (induction t) auto

text \<open>
  Claim C8 as stated fails. The wording "first whitespace-delimited token" and the code
  part ways on a currency text in which a tab follows the code: the code splits at
  spaces only.
\<close>

theorem currency_code_is_not_first_whitespace_token:
  "currency_code tab_user = ''USD'' @ [CHR 0x09] @ ''(US''
   \<and> spec_first_token (py_str (Currency tab_user)) = ''USD''"
  by (simp add: currency_code_def tab_user_def spec_first_token_def is_space_def)

text \<open>
  Claim C8, as amended. The currency option selected is the text of the \<^verbatim>\<open>Currency\<close>
  value before its first space character (all of it when it has no space); the
  \<^verbatim>\<open>select_option\<close> step of the sequence is called with exactly that label; and
  \<^verbatim>\<open>USD (US Dollar)\<close> selects \<^verbatim>\<open>USD\<close>.
\<close>

theorem currency_code_is_text_before_first_space:
  "currency_code u = takeWhile (\<lambda>c. c \<noteq> CHR '' '') (py_str (Currency u))
   \<and> create_steps env base_url u pw ! 21
       = act env (Select_option (Locator ''#placeholder-currency'')
                    (takeWhile (\<lambda>c. c \<noteq> CHR '' '') (py_str (Currency u))))
   \<and> currency_code (u\<lparr>Currency := Text ''USD (US Dollar)''\<rparr>) = ''USD''"
  by (simp add: currency_code_def hd_py_split create_steps_def)

section \<open>A run in which the approval never comes\<close>

lemma login_raises_approval_timeout:
  assumes ok: "\<And>n a. a \<noteq> Wait_for_url_without ''okta.com'' 120000
                 \<Longrightarrow> a \<notin> set mfa_selection_actions \<Longrightarrow> responds env n a = None"
    and w: "\<And>n. responds env n (Wait_for_url_without ''okta.com'' 120000) = Some e"
    and p: "page s"
  shows "fst (login env url em pw s) = Raised e"
proof -
  have c: "completes (seq (credential_steps env url em pw))"
    by (rule completes_seq[where P = setup_event])
       (simp add: credential_steps_def completes_progress emits_progress emits_act
          completes_act_when[OF ok] mfa_selection_actions_def push_option_locator_def
          push_sent_locator_def)
  obtain r s1 where 1: "seq (credential_steps env url em pw) (log (Called Login) s) = (r, s1)"
    by (cases "seq (credential_steps env url em pw) (log (Called Login) s)")
  have "page (log (Called Login) s)" using p by (simp add: log_def)
  from completesD[OF c this 1] 1
  have 1: "seq (credential_steps env url em pw) (log (Called Login) s) = (Normal, s1)"
    by simp
  obtain s2 where 2: "mfa_selection env s1 = (Normal, s2)"
    using mfa_selection_never_raises[of env s1] by (cases "mfa_selection env s1") auto
  from login_approval_timeout[OF p 1 2 w] show ?thesis .
qed

lemma do_step_raises: "fst (m s) = Raised e \<Longrightarrow> do_step m s = (Raise e, snd (m s))"
  by (cases "m s") (auto simp: do_step_def)

lemma is_error_none: "list_all body_event evs \<Longrightarrow> filter is_error evs = []"
  by (induction evs rule: created.induct) auto

lemma is_error_teardown: "list_all teardown_event evs \<Longrightarrow> filter is_error evs = []"
  by (induction evs rule: created.induct) auto

lemma close_when:
  assumes "\<And>n. responds env n Browser_close = None" "\<And>n. responds env n Playwright_stop = None"
  shows "fst (close env s) = Normal"
  by (simp add: close_def assms enter_def progress_callback_def act_def log_def)

text \<open>
  Claim C6, as amended. When the approval wait raises \<open>e\<close> (every call outside the
  MFA-selection block succeeding otherwise, nobody cancelling), the run ends there: no
  account is created, the one error signal carries the type name and the text of \<open>e\<close>
  itself, and teardown and completion signal follow. The report is the general one of
  the \<^verbatim>\<open>except\<close> clause; no error of the program's own stands for the MFA timeout.
\<close>

theorem approval_timeout_ends_run:
  assumes "never_stopped env"
    and "\<forall>n. responds env n (Wait_for_url_without ''okta.com'' 120000) = Some e"
    and "\<forall>n a. a \<noteq> Wait_for_url_without ''okta.com'' 120000
           \<and> a \<notin> set mfa_selection_actions \<longrightarrow> responds env n a = None"
  shows "fst (run env w initial_state) = Normal
       \<and> created (trace (snd (run env w initial_state))) = []
       \<and> filter is_error (trace (snd (run env w initial_state)))
           = [Automation_error
                (''A critical error stopped the automation.'' @ [CHR 0x0A, CHR 0x0A]
                   @ ''Error Type: '' @ exn_type e @ [CHR 0x0A] @ ''Details: '' @ exn_msg e)]
       \<and> last (trace (snd (run env w initial_state))) = Automation_finished"
proof -
  have ok: "\<And>n a. a \<noteq> Wait_for_url_without ''okta.com'' 120000
                 \<Longrightarrow> a \<notin> set mfa_selection_actions \<Longrightarrow> responds env n a = None"
    using assms(3) by blast
  have w: "\<And>n. responds env n (Wait_for_url_without ''okta.com'' 120000) = Some e"
    using assms(2) by blast
  have la: "\<And>s. fst (launch env s) = Normal \<and> page (snd (launch env s))"
    using launch_when[of env] by (simp add: ok mfa_selection_actions_def)
  have lo: "\<And>s. page s \<Longrightarrow> fst (login env (gtp_url w) (email w) (password w) s) = Raised e"
    by (rule login_raises_approval_timeout[OF ok w])
  let ?s0 = "initial_state\<lparr>driver := True\<rparr>"
  obtain fl s1 where sp: "parts (setup_parts env w) ?s0 = (fl, s1)"
    by (cases "parts (setup_parts env w) ?s0")
  have "is_running ?s0" by (simp add: initial_state_def)
  with sp have fl: "fl = Raise e"
    using assms(1)
    by (simp add: setup_parts_def do_step_progress return_if_stopped_running
        do_step_returns[OF la[THEN conjunct1]] emits_is_running[OF emits_launch]
        do_step_raises[OF lo] la log_def split: if_splits)
  from yieldsD[OF yields_setup_parts sp] obtain evs where
    evs: "trace s1 = evs" "list_all setup_event evs"
    by (auto simp: initial_state_def)
  have b: "run_body env w ?s0 = (Raise e, s1)"
    using sp fl by (simp add: run_body_split parts_append)
  from run_shape[OF b] obtain tevs fin where
    t: "trace (snd (run env w initial_state)) = trace s1 @ reported (Raise e)
          @ Called Close # tevs @ fin"
    and c: "list_all teardown_event tevs"
    and f: "(fst (run env w initial_state) = Normal \<and> fin = [Automation_finished])
        \<or> ((\<exists>e. fst (run env w initial_state) = Raised e) \<and> fin = [])"
    by blast
  have cl: "\<And>s. fst (close env s) = Normal"
    by (rule close_when) (simp_all add: ok mfa_selection_actions_def)
  have n: "fst (run env w initial_state) = Normal"
    using b cl[of "on_exception e s1"] yieldsD[OF yields_run_body b]
    by (cases "close env (on_exception e s1)")
       (auto simp: run_def finally_clause_def on_exception_def log_def assign_def)
  with f have fin: "fin = [Automation_finished]" by auto
  have "list_all body_event evs"
    using evs(2) by (rule list_all_mono) (rule setup_event_body)
  then have "filter is_error evs = []" by (rule is_error_none)
  with n t c fin evs show ?thesis
    by (simp add: created_setup created_teardown is_error_teardown full_error_message_def)
qed

text \<open>The operator never approves the push.\<close>

theorem approval_timeout_ends_run_witness:
  "never_stopped approval_timeout_env
   \<and> filter is_error (trace (snd (run approval_timeout_env demo_worker initial_state)))
       = [Automation_error
            (''A critical error stopped the automation.'' @ [CHR 0x0A, CHR 0x0A]
               @ ''Error Type: TimeoutError'' @ [CHR 0x0A] @ ''Details: Timeout exceeded.'')]
   \<and> created (trace (snd (run approval_timeout_env demo_worker initial_state))) = []"
  using approval_timeout_ends_run[of approval_timeout_env timeout_error demo_worker]
  by (simp add: approval_timeout_env_def never_stopped_def timeout_error_def
      mfa_selection_actions_def)

section \<open>The input files\<close>

lemma no_worker_without_input:
  assumes "parse_credentials_file fs (cred_path f) = Inl e
           \<or> parse_user_data fs (user_data_path f) = Inl e"
  shows "snd (start_automation fs env f) = None"
proof -
  have "\<exists>lg e'. preflight fs f = (lg, Inl e')"
    using assms
    by (cases "parse_credentials_file fs (cred_path f)")
       (auto simp: preflight_def Let_def split: sum.splits)
  then show ?thesis
    by (auto simp: start_automation_def Let_def)
qed

text \<open>
  Claim C9. A credentials file of fewer than two lines makes \<^verbatim>\<open>parse_credentials_file\<close>
  raise the \<^verbatim>\<open>ValueError\<close>; \<^verbatim>\<open>start_automation\<close> then returns without creating a worker,
  so no browser is launched and no Playwright call is made; and when the form itself was
  filled in, the error is shown in the "File Error" box.
\<close>

theorem short_credentials_file_rejected:
  assumes "text_file fs (cred_path f) = Inr t" and "length (readlines t) < 2"
  shows "parse_credentials_file fs (cred_path f)
           = Inl (Exn ''ValueError''
                    ''Credentials file must have at least two lines (email and password).'')
       \<and> snd (start_automation fs env f) = None
       \<and> (input_errors f = [] \<longrightarrow>
            last (fst (start_automation fs env f))
              = Critical_box ''File Error''
                  (''Failed to read or validate an input file.'' @ [CHR 0x0A, CHR 0x0A]
                     @ ''Error: Credentials file must have at least two lines (email and password).''))"
proof -
  have p: "parse_credentials_file fs (cred_path f)
           = Inl (Exn ''ValueError''
                    ''Credentials file must have at least two lines (email and password).'')"
    using assms by (simp add: parse_credentials_file_def)
  then have "preflight fs f = ([Log_message (''Parsing credentials file: '' @ cred_path f)],
      Inl (Exn ''ValueError''
                    ''Credentials file must have at least two lines (email and password).''))"
    by (simp add: preflight_def)
  then have "input_errors f = [] \<longrightarrow>
            last (fst (start_automation fs env f))
              = Critical_box ''File Error''
                  (''Failed to read or validate an input file.'' @ [CHR 0x0A, CHR 0x0A]
                     @ ''Error: Credentials file must have at least two lines (email and password).'')"
    by (simp add: start_automation_def Let_def)
  with p no_worker_without_input[of fs f _ env] show ?thesis
    by blast
qed

text \<open>A credentials file that holds the email only.\<close>

theorem short_credentials_file_rejected_witness:
  "text_file demo_files (cred_path (demo_form\<lparr>cred_path := ''one_line.txt''\<rparr>))
     = Inr ''operator@example.com''
   \<and> length (readlines ''operator@example.com'') < 2
   \<and> snd (start_automation demo_files calm_env (demo_form\<lparr>cred_path := ''one_line.txt''\<rparr>)) = None"
proof -
  have 1: "text_file demo_files (cred_path (demo_form\<lparr>cred_path := ''one_line.txt''\<rparr>))
     = Inr ''operator@example.com''"
    by (simp add: demo_files_def)
  have 2: "length (readlines ''operator@example.com'') < 2"
    by simp
  from short_credentials_file_rejected[OF 1 2] 1 2 show ?thesis
    by blast
qed

section \<open>The spreadsheet\<close>

lemma positions_empty: "positions cols name = [] \<longleftrightarrow> Text name \<notin> set cols"
  by (auto simp: positions_def filter_empty_conv in_set_conv_nth)

lemma short_list_cases:
  assumes "length (xs :: 'a list) \<le> 3"
  obtains "xs = []" | x where "xs = [x]" | x y where "xs = [x, y]"
  | x y z where "xs = [x, y, z]"
proof (cases xs)
  case Nil
  then show ?thesis using that(1) by simp
next
  case (Cons x xs1)
  note 1 = this
  show ?thesis
  proof (cases xs1)
    case Nil
    with 1 show ?thesis using that(2) by simp
  next
    case (Cons y xs2)
    note 2 = this
    show ?thesis
    proof (cases xs2)
      case Nil
      with 1 2 show ?thesis using that(3) by simp
    next
      case (Cons z xs3)
      with 1 2 assms have "xs3 = []" by simp
      with 1 2 Cons show ?thesis using that(4) by simp
    qed
  qed
qed

text \<open>
  Three columns that carry the three names carry each of them once, so the currency
  column is one column and the value under \<^verbatim>\<open>Currency\<close> is its cell.
\<close>

lemma currency_column_unique:
  assumes "length cols \<le> 3" "Text ''Currency'' \<in> set cols" "Text ''Username'' \<in> set cols"
    "Text ''Postfix'' \<in> set cols"
  shows "\<exists>i. positions cols ''Currency'' = [i]"
  using assms(1)
proof (cases cols rule: short_list_cases)
  case 1
  with assms show ?thesis by simp
next
  case (2 x)
  with assms show ?thesis by auto
next
  case (3 x y)
  with assms show ?thesis by auto
next
  case (4 x y z)
  with assms show ?thesis by (auto simp: positions_def)
qed

lemma dropna_records:
  assumes "length (columns d) \<le> 3" "has_required_columns d"
  shows "\<exists>d'. dropna ''Currency'' d = Inr d' \<and> columns d' = columns d
           \<and> to_records d' = with_currency (to_records d)"
proof -
  from assms(2) have m: "Text ''Currency'' \<in> set (columns d)" "Text ''Username'' \<in> set (columns d)"
    "Text ''Postfix'' \<in> set (columns d)"
    by (simp_all add: has_required_columns_def required_columns_def)
  from currency_column_unique[OF assms(1) m] obtain i where
    i: "positions (columns d) ''Currency'' = [i]"
    by blast
  let ?d' = "d\<lparr>rows := filter (\<lambda>r. cell_at r i \<noteq> NaN) (rows d)\<rparr>"
  have 1: "dropna ''Currency'' d = Inr ?d'"
    using i by (simp add: dropna_def)
  have f: "\<And>r. field ?d' r ''Currency'' = cell_at r i" "\<And>r. field d r ''Currency'' = cell_at r i"
    using i by (simp_all add: field_def)
  have "to_records ?d' = with_currency (to_records d)"
    using i by (simp add: to_records_def with_currency_def filter_map o_def field_def)
  with 1 show ?thesis by simp
qed

lemma lvc_columns:
  "Text name \<in> set (columns (rename_column ''LVC Currency'' ''Currency'' d)) \<longleftrightarrow>
     (if name = ''Currency''
      then Text ''LVC Currency'' \<in> set (columns d) \<or> Text ''Currency'' \<in> set (columns d)
      else name \<noteq> ''LVC Currency'' \<and> Text name \<in> set (columns d))"
  by (auto simp: rename_column_def)

lemma lvc_required:
  "has_required_columns (lvc_frame (h # body)) \<longleftrightarrow> lvc_headers_present (h # body)"
  by (simp add: has_required_columns_def required_columns_def lvc_frame_def lvc_columns
      lvc_headers_present_def)

lemma standard_required:
  "has_required_columns (standard_frame (h # body)) \<longleftrightarrow> standard_headers_present (h # body)"
  by (simp add: has_required_columns_def required_columns_def standard_frame_def
      standard_headers_present_def)

lemma dropna_fails:
  "\<not> has_required_columns d \<Longrightarrow> dropna ''Currency'' d = Inr d' \<Longrightarrow> \<not> has_required_columns d'"
  by (auto simp: dropna_def Let_def has_required_columns_def split: if_splits)

lemma dropna_error:
  "dropna ''Currency'' d = Inl e \<Longrightarrow> exn_type e = ''KeyError''"
  by (auto simp: dropna_def Let_def split: if_splits)

text \<open>The result of parsing a sheet with at least one row, in terms of the two frames.\<close>

lemma parse_sheet:
  assumes "excel_file fs p = Workbook sheets" "map_of sheets ''Sheet1'' = Some (h # body)"
  shows "parse_user_data fs p =
     (case dropna ''Currency'' (lvc_frame (h # body)) of
        Inl e \<Rightarrow> Inl e
      | Inr lvc_df \<Rightarrow>
          (case dropna ''Currency'' (standard_frame (h # body)) of
             Inl e \<Rightarrow> Inl e
           | Inr standard_df \<Rightarrow>
               if \<not> has_required_columns lvc_df
               then Inl (Exn ''ValueError''
                 ''The LVC section (Columns A-C) is missing required headers: 'LVC Currency', 'Username', 'Postfix'.'')
               else if \<not> has_required_columns standard_df
               then Inl (Exn ''ValueError''
                 ''The Standard section (Columns E-G) is missing required headers: 'Currency', 'Username', 'Postfix'.'')
               else Inr (to_records lvc_df, to_records standard_df)))"
  using assms
  by (simp add: parse_user_data_def first_row_as_header_def lvc_section_def
      standard_section_def lvc_frame_def standard_frame_def split: sum.splits)

lemma parse_empty_sheet:
  assumes "excel_file fs p = Workbook sheets" "map_of sheets ''Sheet1'' = Some []"
  shows "parse_user_data fs p
           = Inl (Exn ''IndexError'' ''single positional indexer is out-of-bounds'')"
  using assms
  by (simp add: parse_user_data_def first_row_as_header_def lvc_section_def)

lemma missing_headers_raise:
  assumes "excel_file fs p = Workbook sheets" "map_of sheets ''Sheet1'' = Some df"
    and "\<not> lvc_headers_present df \<or> \<not> standard_headers_present df"
  shows "\<exists>e. parse_user_data fs p = Inl e
           \<and> exn_type e \<in> {''IndexError'', ''KeyError'', ''ValueError''}"
proof (cases df)
  case Nil
  with parse_empty_sheet[OF assms(1)] assms(2) show ?thesis by simp
next
  case (Cons h body)
  note ps = parse_sheet[OF assms(1) assms(2)[unfolded Cons]]
  show ?thesis
  proof (cases "dropna ''Currency'' (lvc_frame (h # body))")
    case (Inl e)
    with ps dropna_error[OF Inl] show ?thesis by simp
  next
    case (Inr lvc_df)
    note l = this
    show ?thesis
    proof (cases "dropna ''Currency'' (standard_frame (h # body))")
      case (Inl e)
      with ps l dropna_error[OF Inl] show ?thesis by simp
    next
      case (Inr standard_df)
      from assms(3) Cons have "\<not> has_required_columns (lvc_frame (h # body))
          \<or> \<not> has_required_columns (standard_frame (h # body))"
        by (simp add: lvc_required standard_required)
      with dropna_fails[OF _ l] dropna_fails[OF _ Inr]
      have "\<not> has_required_columns lvc_df \<or> \<not> has_required_columns standard_df"
        by blast
      with ps l Inr show ?thesis by auto
    qed
  qed
qed

lemma present_headers_parse:
  assumes "excel_file fs p = Workbook sheets" "map_of sheets ''Sheet1'' = Some df"
    and "lvc_headers_present df" "standard_headers_present df"
  shows "parse_user_data fs p
           = Inr (with_currency (to_records (lvc_frame df)),
                  with_currency (to_records (standard_frame df)))"
proof (cases df)
  case Nil
  with assms(3) show ?thesis by (simp add: lvc_headers_present_def)
next
  case (Cons h body)
  note ps = parse_sheet[OF assms(1) assms(2)[unfolded Cons]]
  have rl: "has_required_columns (lvc_frame (h # body))"
    and rs: "has_required_columns (standard_frame (h # body))"
    using assms(3,4) Cons by (simp_all add: lvc_required standard_required)
  have "length (columns (lvc_frame (h # body))) \<le> 3"
    by (simp add: lvc_frame_def rename_column_def)
  from dropna_records[OF this rl] obtain dl where
    dl: "dropna ''Currency'' (lvc_frame (h # body)) = Inr dl"
      "columns dl = columns (lvc_frame (h # body))"
      "to_records dl = with_currency (to_records (lvc_frame (h # body)))"
    by blast
  have "length (columns (standard_frame (h # body))) \<le> 3"
    by (simp add: standard_frame_def)
  from dropna_records[OF this rs] obtain ds where
    ds: "dropna ''Currency'' (standard_frame (h # body)) = Inr ds"
      "columns ds = columns (standard_frame (h # body))"
      "to_records ds = with_currency (to_records (standard_frame (h # body)))"
    by blast
  have "has_required_columns dl" "has_required_columns ds"
    using rl rs dl(2) ds(2) by (simp_all add: has_required_columns_def)
  with ps dl ds Cons show ?thesis by simp
qed

text \<open>
  Claim C10. For a workbook with a sheet \<^verbatim>\<open>Sheet1\<close>: when either section lacks one of its
  expected header names, \<^verbatim>\<open>parse_user_data\<close> raises (an \<^verbatim>\<open>IndexError\<close> for a sheet without
  rows, the \<^verbatim>\<open>KeyError\<close> of \<^verbatim>\<open>dropna\<close> when it is the currency column that is missing,
  the \<^verbatim>\<open>ValueError\<close> of the header check otherwise) and \<^verbatim>\<open>start_automation\<close> creates no
  worker; when both sections have their headers, parsing succeeds and returns the data
  rows of each section without those whose currency cell is blank.
\<close>

theorem headers_required_blank_currency_rows_dropped:
  assumes "excel_file fs (user_data_path f) = Workbook sheets"
    and "map_of sheets ''Sheet1'' = Some df"
  shows "(\<not> lvc_headers_present df \<or> \<not> standard_headers_present df \<longrightarrow>
            (\<exists>e. parse_user_data fs (user_data_path f) = Inl e
                  \<and> exn_type e \<in> {''IndexError'', ''KeyError'', ''ValueError''})
            \<and> snd (start_automation fs env f) = None)
       \<and> (lvc_headers_present df \<and> standard_headers_present df \<longrightarrow>
            parse_user_data fs (user_data_path f)
              = Inr (with_currency (to_records (lvc_frame df)),
                     with_currency (to_records (standard_frame df))))"
proof (intro conjI impI)
  assume a: "\<not> lvc_headers_present df \<or> \<not> standard_headers_present df"
  from missing_headers_raise[OF assms a]
  show "\<exists>e. parse_user_data fs (user_data_path f) = Inl e
                  \<and> exn_type e \<in> {''IndexError'', ''KeyError'', ''ValueError''}" .
  then obtain e where "parse_user_data fs (user_data_path f) = Inl e" by blast
  then show "snd (start_automation fs env f) = None"
    using no_worker_without_input[of fs f e env] by simp
next
  assume "lvc_headers_present df \<and> standard_headers_present df"
  then show "parse_user_data fs (user_data_path f)
              = Inr (with_currency (to_records (lvc_frame df)),
                     with_currency (to_records (standard_frame df)))"
    using present_headers_parse[OF assms] by simp
qed

text \<open>
  A workbook whose standard section has \<^verbatim>\<open>Suffix\<close> for \<^verbatim>\<open>Postfix\<close>, and one with the
  right headers whose first LVC row has no currency.
\<close>

theorem headers_required_blank_currency_rows_dropped_witness:
  "\<not> standard_headers_present headless_sheet
   \<and> snd (start_automation demo_files calm_env (demo_form\<lparr>user_data_path := ''headless.xlsx''\<rparr>))
       = None
   \<and> lvc_headers_present demo_sheet \<and> standard_headers_present demo_sheet
   \<and> parse_user_data demo_files (user_data_path demo_form) = Inr ([alice], [bob])"
proof -
  have 1: "excel_file demo_files (user_data_path (demo_form\<lparr>user_data_path := ''headless.xlsx''\<rparr>))
      = Workbook [(''Sheet1'', headless_sheet)]"
    and 2: "map_of [(''Sheet1'', headless_sheet)] ''Sheet1'' = Some headless_sheet"
    and 3: "\<not> standard_headers_present headless_sheet"
    by (simp_all add: demo_files_def standard_headers_present_def headless_sheet_def)
  have 4: "excel_file demo_files (user_data_path demo_form)
      = Workbook [(''Sheet1'', demo_sheet)]"
    and 5: "map_of [(''Sheet1'', demo_sheet)] ''Sheet1'' = Some demo_sheet"
    and 6: "lvc_headers_present demo_sheet" "standard_headers_present demo_sheet"
    by (simp_all add: demo_files_def demo_form_def standard_headers_present_def
        lvc_headers_present_def demo_sheet_def)
  have 7: "with_currency (to_records (lvc_frame demo_sheet)) = [alice]"
    "with_currency (to_records (standard_frame demo_sheet)) = [bob]"
    by (simp_all add: with_currency_def to_records_def lvc_frame_def standard_frame_def
        demo_sheet_def rename_column_def field_def positions_def cell_at_def alice_def
        bob_def)
  from headers_required_blank_currency_rows_dropped[OF 1 2, of calm_env] 3
  have a: "snd (start_automation demo_files calm_env
      (demo_form\<lparr>user_data_path := ''headless.xlsx''\<rparr>)) = None"
    by blast
  from headers_required_blank_currency_rows_dropped[OF 4 5, of calm_env] 6 7
  have b: "parse_user_data demo_files (user_data_path demo_form) = Inr ([alice], [bob])"
    by simp
  from 3 a 6 b show ?thesis by (intro conjI)
qed

end
